theory Spec2Isabelle
  imports Main
begin

section \<open>Binary floating point\<close>

text \<open>
  Both editors compute with the C++ type \<^verbatim>\<open>float\<close> (\<^verbatim>\<open>GLfloat\<close>), and
  \<^verbatim>\<open>is_close\<close> with \<^verbatim>\<open>double\<close>. A finite floating-point value is modelled
  by the pair \<open>(m, e)\<close> of integers that denotes \<open>m * 2 ^ e\<close>, kept in the normal form
  where \<open>m\<close> is odd, or \<open>(0, 0)\<close> for zero. Every operation computes the exact result
  and rounds it to \<open>p\<close> significant bits, nearest with ties to even (\<open>p = 24\<close> for
  \<^verbatim>\<open>float\<close>, \<open>p = 53\<close> for \<^verbatim>\<open>double\<close>), each operation rounded on its own.
  The exponent range is not bounded: overflow to infinity, NaN, subnormal numbers and the
  sign of zero are outside the model, and so is a zero divisor.
\<close>

type_synonym fl = "int \<times> int"

function fl_norm :: "int \<Rightarrow> int \<Rightarrow> fl" where
  "fl_norm m e =
     (if m = 0 then (0, 0) else if even m then fl_norm (m div 2) (e + 1) else (m, e))"
  by pat_completeness auto
termination
  by (relation "measure (\<lambda>(m, e). nat \<bar>m\<bar>)") auto

declare fl_norm.simps [simp del]

function bit_length :: "int \<Rightarrow> nat" where
  "bit_length n = (if n \<le> 0 then 0 else Suc (bit_length (n div 2)))"
  by pat_completeness auto
termination
  by (relation "measure nat") auto

declare bit_length.simps [simp del]

text \<open>\<open>rne_frac n d\<close> is the integer nearest to \<open>n / d\<close> (for \<open>d > 0\<close>), ties to even.\<close>

definition rne_frac :: "int \<Rightarrow> int \<Rightarrow> int" where
  "rne_frac n d =
     (let q = n div d; r = n mod d
      in if 2 * r < d then q else if d < 2 * r then q + 1 else if even q then q else q + 1)"

text \<open>\<open>rnd_int p m\<close> keeps the \<open>p\<close> leading bits of the integer \<open>m\<close>.\<close>

definition rnd_int :: "nat \<Rightarrow> int \<Rightarrow> int" where
  "rnd_int p m =
     (if bit_length \<bar>m\<bar> \<le> p then m
      else rne_frac m (2 ^ (bit_length \<bar>m\<bar> - p)) * 2 ^ (bit_length \<bar>m\<bar> - p))"

definition rnd :: "nat \<Rightarrow> fl \<Rightarrow> fl" where
  "rnd p a = fl_norm (rnd_int p (fst a)) (snd a)"

definition exact_add :: "fl \<Rightarrow> fl \<Rightarrow> fl" where
  "exact_add a b =
     (let c = min (snd a) (snd b)
      in (fst a * 2 ^ nat (snd a - c) + fst b * 2 ^ nat (snd b - c), c))"

definition fl_neg :: "fl \<Rightarrow> fl" where
  "fl_neg a = (- fst a, snd a)"

definition fl_add :: "nat \<Rightarrow> fl \<Rightarrow> fl \<Rightarrow> fl" where
  "fl_add p a b = rnd p (exact_add a b)"

definition fl_sub :: "nat \<Rightarrow> fl \<Rightarrow> fl \<Rightarrow> fl" where
  "fl_sub p a b = rnd p (exact_add a (fl_neg b))"

definition fl_mul :: "nat \<Rightarrow> fl \<Rightarrow> fl \<Rightarrow> fl" where
  "fl_mul p a b = rnd p (fst a * fst b, snd a + snd b)"

text \<open>
  The quotient: the numerator is scaled by \<open>2 ^ k\<close> so that the integer quotient has more
  than \<open>p\<close> bits, and the fraction is then rounded once.
\<close>

definition fl_div :: "nat \<Rightarrow> fl \<Rightarrow> fl \<Rightarrow> fl" where
  "fl_div p a b =
     (let k = p + bit_length \<bar>fst b\<bar>;
          n = fst a * sgn (fst b) * 2 ^ k;
          d = \<bar>fst b\<bar>;
          j = bit_length (\<bar>n\<bar> div d) - p
      in fl_norm (rne_frac n (d * 2 ^ j)) (snd a - snd b - int k + int j))"

function isqrt :: "int \<Rightarrow> int" where
  "isqrt n =
     (if n \<le> 0 then 0
      else let r = 2 * isqrt (n div 4) in if (r + 1) * (r + 1) \<le> n then r + 1 else r)"
  by pat_completeness auto
termination
  by (relation "measure nat") auto

declare isqrt.simps [simp del]

text \<open>
  The square root of a value that is not negative: the mantissa is scaled to an even
  exponent and at least \<open>2 * p + 2\<close> bits, its integer square root has more than \<open>p\<close>
  bits, and the comparison with the midpoint \<open>h\<close> decides the rounding.
\<close>

definition fl_sqrt :: "nat \<Rightarrow> fl \<Rightarrow> fl" where
  "fl_sqrt p a =
     (let m = fst a; e = snd a;
          k0 = 2 * p + 2 - bit_length m;
          k = (if even (e - int k0) then k0 else k0 + 1);
          N = m * 2 ^ k;
          s = isqrt N;
          j = bit_length s - p;
          q = s div 2 ^ j;
          h = (2 * q + 1) * 2 ^ (j - 1)
      in fl_norm (if N < h * h then q else if h * h < N then q + 1
                  else if even q then q else q + 1)
           ((e - int k) div 2 + int j))"

definition fl_le :: "fl \<Rightarrow> fl \<Rightarrow> bool" where
  "fl_le a b =
     (let c = min (snd a) (snd b)
      in fst a * 2 ^ nat (snd a - c) \<le> fst b * 2 ^ nat (snd b - c))"

definition fl_less :: "fl \<Rightarrow> fl \<Rightarrow> bool" where
  "fl_less a b =
     (let c = min (snd a) (snd b)
      in fst a * 2 ^ nat (snd a - c) < fst b * 2 ^ nat (snd b - c))"

text \<open>The conversion of an \<^verbatim>\<open>int\<close> to \<^verbatim>\<open>float\<close>, and a decimal \<^verbatim>\<open>float\<close> literal
  \<open>n / d\<close> (\<^verbatim>\<open>0.03f\<close> is \<open>f32_lit 3 100\<close>).\<close>

definition f32_of_int :: "int \<Rightarrow> fl" where
  "f32_of_int i = rnd 24 (i, 0)"

definition f32_lit :: "int \<Rightarrow> int \<Rightarrow> fl" where
  "f32_lit n d = fl_div 24 (fl_norm n 0) (fl_norm d 0)"

definition fadd :: "fl \<Rightarrow> fl \<Rightarrow> fl" where "fadd = fl_add 24"
definition fsub :: "fl \<Rightarrow> fl \<Rightarrow> fl" where "fsub = fl_sub 24"
definition fmul :: "fl \<Rightarrow> fl \<Rightarrow> fl" where "fmul = fl_mul 24"
definition fdiv :: "fl \<Rightarrow> fl \<Rightarrow> fl" where "fdiv = fl_div 24"

definition f_zero :: fl where "f_zero = (0, 0)"
definition f_one :: fl where "f_one = (1, 0)"

text \<open>A value is a \<^verbatim>\<open>float\<close> when rounding to 24 bits leaves it as it is.\<close>

definition is_f32 :: "fl \<Rightarrow> bool" where
  "is_f32 a = (rnd 24 a = a)"


section \<open>The step-sampled editor (\<^verbatim>\<open>class BezierCurve\<close>)\<close>

definition POINT_THRESHOLD :: fl where "POINT_THRESHOLD = f32_of_int 10"
definition CURVE_STEP :: fl where "CURVE_STEP = f32_lit 1 10000"

definition GLFW_RELEASE :: int where "GLFW_RELEASE = 0"
definition GLFW_PRESS :: int where "GLFW_PRESS = 1"
definition GLFW_MOUSE_BUTTON_LEFT :: int where "GLFW_MOUSE_BUTTON_LEFT = 0"
definition GLFW_MOUSE_BUTTON_RIGHT :: int where "GLFW_MOUSE_BUTTON_RIGHT = 1"
definition GLFW_KEY_SPACE :: int where "GLFW_KEY_SPACE = 32"
definition GLFW_KEY_ENTER :: int where "GLFW_KEY_ENTER = 257"
definition GLFW_KEY_DELETE :: int where "GLFW_KEY_DELETE = 261"

datatype Point = Point (px: fl) (py: fl)

text \<open>\<^verbatim>\<open>Point::operator*(float t)\<close> and \<^verbatim>\<open>Point::operator+\<close>.\<close>

definition pmul :: "Point \<Rightarrow> fl \<Rightarrow> Point" where
  "pmul p t = Point (fmul t (px p)) (fmul t (py p))"

definition padd :: "Point \<Rightarrow> Point \<Rightarrow> Point" where
  "padd p q = Point (fadd (px p) (px q)) (fadd (py p) (py q))"

text \<open>
  The object. A vector iterator is modelled by its offset from \<^verbatim>\<open>begin()\<close>:
  \<^verbatim>\<open>erase\<close> leaves the offset of a kept iterator as it is, and a write through an
  offset at or beyond \<^verbatim>\<open>size()\<close> is the error \<open>OutOfRange\<close>.
\<close>

record BezierCurve =
  control_points :: "Point list"
  curve_points :: "Point list"
  moving_points :: "Point list"
  move_iter :: nat
  is_moving :: bool
  is_deleting :: bool

datatype error = OutOfRange | NoReturn

definition BezierCurve_init :: BezierCurve where
  "BezierCurve_init =
     \<lparr>control_points = [], curve_points = [], moving_points = [], move_iter = 0,
      is_moving = False, is_deleting = False\<rparr>"

text \<open>\<^verbatim>\<open>std::pow(d, 2)\<close> of a \<^verbatim>\<open>float\<close> is computed in \<^verbatim>\<open>double\<close>.\<close>

definition pow2d :: "fl \<Rightarrow> fl" where
  "pow2d d = fl_mul 53 d d"

definition is_close :: "Point \<Rightarrow> Point \<Rightarrow> bool" where
  "is_close p1 p2 =
     fl_le (fl_sqrt 53 (fl_add 53 (pow2d (fsub (px p1) (px p2))) (pow2d (fsub (py p1) (py p2)))))
       POINT_THRESHOLD"

definition lerp_step :: "fl \<Rightarrow> nat \<Rightarrow> Point list \<Rightarrow> Point list" where
  "lerp_step t i temp = temp[i := padd (pmul (temp ! i) (fsub f_one t)) (pmul (temp ! (i + 1)) t)]"

definition de_casteljau :: "Point list \<Rightarrow> fl \<Rightarrow> Point list" where
  "de_casteljau cps t =
     fold (\<lambda>k temp. fold (lerp_step t) [0..<length cps - k] temp) [1..<length cps] cps"

definition compute_point :: "Point list \<Rightarrow> fl \<Rightarrow> Point list \<Rightarrow> Point list" where
  "compute_point cps t curve =
     (let temp = de_casteljau cps t in if temp \<noteq> [] then curve @ [temp ! 0] else curve)"

text \<open>The loop \<^verbatim>\<open>for (float t = 0; t <= 1.0f; t += CURVE_STEP)\<close>; \<open>None\<close> is a loop
  that does not return.\<close>

partial_function (option) curve_loop :: "Point list \<Rightarrow> fl \<Rightarrow> Point list \<Rightarrow> Point list option" where
  "curve_loop cps t curve =
     (if fl_le t f_one then curve_loop cps (fadd t CURVE_STEP) (compute_point cps t curve)
      else Some curve)"

declare curve_loop.simps [code]

definition compute_curve :: "BezierCurve \<Rightarrow> error + BezierCurve" where
  "compute_curve s =
     (if 2 \<le> length (control_points s) then
        (case curve_loop (control_points s) f_zero [] of
           None \<Rightarrow> Inl NoReturn
         | Some c \<Rightarrow> Inr (s\<lparr>curve_points := c\<rparr>))
      else Inr (s\<lparr>curve_points := []\<rparr>))"

text \<open>The search loops of \<^verbatim>\<open>handle_mouse_press\<close>: the offset of the first point close
  to \<open>q\<close>, counted from \<open>i\<close>.\<close>

fun find_close :: "Point list \<Rightarrow> Point \<Rightarrow> nat \<Rightarrow> nat option" where
  "find_close [] q i = None"
| "find_close (p # ps) q i = (if is_close p q then Some i else find_close ps q (Suc i))"

definition erase :: "'a list \<Rightarrow> nat \<Rightarrow> 'a list" where
  "erase xs i = take i xs @ drop (Suc i) xs"

definition handle_mouse_press :: "BezierCurve \<Rightarrow> fl \<Rightarrow> fl \<Rightarrow> int \<Rightarrow> error + BezierCurve" where
  "handle_mouse_press s x y button =
     (if button = GLFW_MOUSE_BUTTON_LEFT \<and> \<not> is_moving s then
        (case find_close (control_points s) (Point x y) 0 of
           Some i \<Rightarrow>
             Inr (s\<lparr>is_moving := True, move_iter := i,
                    moving_points := moving_points s @ [Point x y]\<rparr>)
         | None \<Rightarrow> Inr s)
      else if button = GLFW_MOUSE_BUTTON_RIGHT then
        (case find_close (control_points s) (Point x y) 0 of
           Some i \<Rightarrow> compute_curve (s\<lparr>control_points := erase (control_points s) i\<rparr>)
         | None \<Rightarrow> Inr s)
      else Inr s)"

definition handle_mouse_release :: "BezierCurve \<Rightarrow> fl \<Rightarrow> fl \<Rightarrow> int \<Rightarrow> error + BezierCurve" where
  "handle_mouse_release s x y button =
     (if button = GLFW_MOUSE_BUTTON_LEFT then
        (if is_moving s then
           (if move_iter s < length (control_points s) then
              compute_curve
                (s\<lparr>control_points := (control_points s)[move_iter s := Point x y],
                   is_moving := False, moving_points := []\<rparr>)
            else Inl OutOfRange)
         else compute_curve (s\<lparr>control_points := control_points s @ [Point x y]\<rparr>))
      else Inr s)"

definition handle_key :: "BezierCurve \<Rightarrow> int \<Rightarrow> int \<Rightarrow> BezierCurve" where
  "handle_key s key action =
     (if key = GLFW_KEY_DELETE then s\<lparr>is_deleting := (action = GLFW_PRESS)\<rparr>
      else if key = GLFW_KEY_ENTER \<and> action = GLFW_PRESS then
        s\<lparr>control_points := [], moving_points := [], curve_points := [],
          is_moving := False, is_deleting := False\<rparr>
      else if key = GLFW_KEY_SPACE \<and> action = GLFW_PRESS then
        s\<lparr>control_points := [], moving_points := [], curve_points := [],
          is_moving := False, is_deleting := False\<rparr>
      else s)"

text \<open>
  The position that \<^verbatim>\<open>draw_controls\<close> gives the point at offset \<open>i\<close>: the last
  entry of \<^verbatim>\<open>moving_points\<close> for the point being moved, the list entry otherwise.
\<close>

definition drawn_point :: "BezierCurve \<Rightarrow> nat \<Rightarrow> Point" where
  "drawn_point s i =
     (if is_moving s \<and> i = move_iter s \<and> moving_points s \<noteq> [] then last (moving_points s)
      else control_points s ! i)"

text \<open>
  The three callbacks that \<^verbatim>\<open>main\<close> registers. The cursor position arrives as
  \<^verbatim>\<open>double\<close> and is cast to \<^verbatim>\<open>float\<close>; \<open>CursorPos x y held\<close> carries whether
  the left button is held.
\<close>

datatype event = MouseButton int int fl fl | CursorPos fl fl bool | Key int int

fun dispatch :: "BezierCurve \<Rightarrow> event \<Rightarrow> error + BezierCurve" where
  "dispatch s (MouseButton button action x y) =
     (if action = GLFW_PRESS then handle_mouse_press s (rnd 24 x) (rnd 24 y) button
      else if action = GLFW_RELEASE \<and> button = GLFW_MOUSE_BUTTON_LEFT then
        handle_mouse_release s (rnd 24 x) (rnd 24 y) button
      else Inr s)"
| "dispatch s (CursorPos x y held) =
     (if held then
        (if is_moving s then handle_mouse_press s (rnd 24 x) (rnd 24 y) GLFW_MOUSE_BUTTON_LEFT
         else Inr s)
      else Inr s)"
| "dispatch s (Key key action) = Inr (handle_key s key action)"

fun run_events :: "BezierCurve \<Rightarrow> event list \<Rightarrow> error + BezierCurve" where
  "run_events s [] = Inr s"
| "run_events s (ev # evs) =
     (case dispatch s ev of Inl err \<Rightarrow> Inl err | Inr s' \<Rightarrow> run_events s' evs)"

inductive reachable :: "BezierCurve \<Rightarrow> bool" where
  init: "reachable BezierCurve_init"
| step: "reachable s \<Longrightarrow> dispatch s ev = Inr s' \<Longrightarrow> reachable s'"

section \<open>The resolution-sampled editor (global state)\<close>

definition WINDOW_WIDTH :: int where "WINDOW_WIDTH = 800"
definition WINDOW_HEIGHT :: int where "WINDOW_HEIGHT = 600"
definition CURVE_RESOLUTION :: nat where "CURVE_RESOLUTION = 100"

record globals =
  controlPoints :: "fl list"
  curvePoints :: "fl list"
  dragging :: bool
  draggedIndex :: int

definition casteljau_step :: "fl \<Rightarrow> nat \<Rightarrow> fl list \<Rightarrow> fl list" where
  "casteljau_step t j temp =
     (let temp1 = temp[j * 2 :=
            fadd (fmul (fsub f_one t) (temp ! (j * 2))) (fmul t (temp ! ((j + 1) * 2)))]
      in temp1[j * 2 + 1 :=
            fadd (fmul (fsub f_one t) (temp1 ! (j * 2 + 1)))
              (fmul t (temp1 ! ((j + 1) * 2 + 1)))])"

definition casteljau :: "nat \<Rightarrow> fl \<Rightarrow> fl list \<Rightarrow> fl list" where
  "casteljau n t points =
     fold (\<lambda>r temp. fold (casteljau_step t) [0..<n - r + 1] temp) [1..<n + 1] points"

definition computeBezierCurve :: "fl list \<Rightarrow> fl list" where
  "computeBezierCurve points =
     (let n = int (length points div 2) - 1
      in if n < 1 then []
         else fold (\<lambda>i curve.
                let t = fdiv (f32_of_int (int i)) (f32_of_int (int CURVE_RESOLUTION));
                    temp = casteljau (nat n) t points
                in curve @ [temp ! 0, temp ! 1])
              [0..<CURVE_RESOLUTION + 1] [])"

definition screenToGLCoords :: "fl \<Rightarrow> fl \<Rightarrow> fl \<times> fl" where
  "screenToGLCoords x y =
     (fsub (fdiv (fmul (f32_of_int 2) (rnd 24 x)) (f32_of_int WINDOW_WIDTH)) f_one,
      fsub f_one (fdiv (fmul (f32_of_int 2) (rnd 24 y)) (f32_of_int WINDOW_HEIGHT)))"

text \<open>\<^verbatim>\<open>updateBuffers\<close>: the uploads to the vertex buffers are not part of the model.\<close>

definition updateBuffers :: "globals \<Rightarrow> globals" where
  "updateBuffers g = g\<lparr>curvePoints := computeBezierCurve (controlPoints g)\<rparr>"

definition getPointDistance :: "globals \<Rightarrow> nat \<Rightarrow> fl \<Rightarrow> fl \<Rightarrow> fl" where
  "getPointDistance g pointIndex x y =
     (let dx = fsub (controlPoints g ! (pointIndex * 2)) x;
          dy = fsub (controlPoints g ! (pointIndex * 2 + 1)) y
      in fadd (fmul dx dx) (fmul dy dy))"

function find_from :: "globals \<Rightarrow> fl \<Rightarrow> fl \<Rightarrow> fl \<Rightarrow> nat \<Rightarrow> int" where
  "find_from g x y threshold i =
     (if i < length (controlPoints g) div 2 then
        (if fl_less (getPointDistance g i x y) (fmul threshold threshold) then int i
         else find_from g x y threshold (Suc i))
      else - 1)"
  by pat_completeness auto
termination
  by (relation "measure (\<lambda>(g, x, y, threshold, i). length (controlPoints g) div 2 - i)") auto

declare find_from.simps [simp del]

definition findPointUnderCursor :: "globals \<Rightarrow> fl \<Rightarrow> fl \<Rightarrow> fl \<Rightarrow> int" where
  "findPointUnderCursor g x y threshold = find_from g x y threshold 0"

definition default_threshold :: fl where
  "default_threshold = f32_lit 3 100"

text \<open>\<^verbatim>\<open>mouse_button_callback\<close>; \<open>xpos\<close>, \<open>ypos\<close> is what \<^verbatim>\<open>glfwGetCursorPos\<close> returns.\<close>

definition mouse_button_callback :: "globals \<Rightarrow> int \<Rightarrow> int \<Rightarrow> fl \<Rightarrow> fl \<Rightarrow> globals" where
  "mouse_button_callback g button action xpos ypos =
     (if action = GLFW_PRESS then
        (let (mx, my) = screenToGLCoords xpos ypos
         in if button = GLFW_MOUSE_BUTTON_LEFT then
              (let pointIndex = findPointUnderCursor g mx my default_threshold
               in if pointIndex \<noteq> - 1 then g\<lparr>dragging := True, draggedIndex := pointIndex\<rparr>
                  else updateBuffers (g\<lparr>controlPoints := controlPoints g @ [mx, my]\<rparr>))
            else if button = GLFW_MOUSE_BUTTON_RIGHT \<and> controlPoints g \<noteq> [] then
              (let pointIndex = findPointUnderCursor g mx my default_threshold
               in if pointIndex \<noteq> - 1 then
                    (if 4 < length (controlPoints g) then
                       updateBuffers
                         (g\<lparr>controlPoints :=
                              take (nat pointIndex * 2) (controlPoints g)
                              @ drop (nat pointIndex * 2 + 2) (controlPoints g)\<rparr>)
                     else g)
                  else g)
            else g)
      else if action = GLFW_RELEASE then g\<lparr>dragging := False, draggedIndex := - 1\<rparr>
      else g)"

text \<open>\<^verbatim>\<open>cursor_position_callback\<close>: the two writes \<^verbatim>\<open>controlPoints[draggedIndex * 2]\<close>
  and \<^verbatim>\<open>controlPoints[draggedIndex * 2 + 1]\<close> are checked against the size.\<close>

definition write_at :: "fl list \<Rightarrow> int \<Rightarrow> fl \<Rightarrow> error + fl list" where
  "write_at xs i v = (if 0 \<le> i \<and> i < int (length xs) then Inr (xs[nat i := v]) else Inl OutOfRange)"

definition cursor_position_callback :: "globals \<Rightarrow> fl \<Rightarrow> fl \<Rightarrow> error + globals" where
  "cursor_position_callback g xpos ypos =
     (if dragging g \<and> draggedIndex g \<noteq> - 1 then
        (let (mx, my) = screenToGLCoords xpos ypos
         in case write_at (controlPoints g) (draggedIndex g * 2) mx of
              Inl err \<Rightarrow> Inl err
            | Inr cp1 \<Rightarrow>
                (case write_at cp1 (draggedIndex g * 2 + 1) my of
                   Inl err \<Rightarrow> Inl err
                 | Inr cp2 \<Rightarrow> Inr (updateBuffers (g\<lparr>controlPoints := cp2\<rparr>))))
      else Inr g)"

text \<open>The state in which \<^verbatim>\<open>main\<close> enters its loop: the four seed points, sampled.\<close>

definition main_init :: globals where
  "main_init =
     updateBuffers
       \<lparr>controlPoints =
          [f32_lit (- 8) 10, f32_lit (- 8) 10, f32_lit (- 4) 10, f32_lit 9 10,
           f32_lit 4 10, f32_lit (- 9) 10, f32_lit 8 10, f32_lit 8 10],
        curvePoints = [], dragging = False, draggedIndex = - 1\<rparr>"

datatype gevent = Button int int fl fl | Cursor fl fl

fun gdispatch :: "globals \<Rightarrow> gevent \<Rightarrow> error + globals" where
  "gdispatch g (Button button action xpos ypos) = Inr (mouse_button_callback g button action xpos ypos)"
| "gdispatch g (Cursor xpos ypos) = cursor_position_callback g xpos ypos"


inductive greachable :: "globals \<Rightarrow> bool" where
  ginit: "greachable main_init"
| gstep: "greachable g \<Longrightarrow> gdispatch g ev = Inr g' \<Longrightarrow> greachable g'"


section \<open>The parameters visited by the step-sampled loop\<close>

text \<open>
  \<^verbatim>\<open>CURVE_STEP\<close> is \<open>13743895 * 2 ^ - 37\<close>, so every value that the loop variable
  \<^verbatim>\<open>t\<close> takes is an integer multiple of \<open>2 ^ - 37\<close>. On these integers one pass of
  \<^verbatim>\<open>t += CURVE_STEP\<close> is \<open>grid_step\<close>, \<open>grid_run k n\<close> is the value after \<open>k\<close> passes
  that all found \<^verbatim>\<open>t <= 1.0f\<close>, and \<open>grid_ts k n\<close> lists the values of \<^verbatim>\<open>t\<close> in
  these passes.
\<close>

definition grid_step :: "int \<Rightarrow> int" where
  "grid_step n = rnd_int 24 (n + 13743895)"

fun grid_run :: "nat \<Rightarrow> int \<Rightarrow> int option" where
  "grid_run 0 n = Some n"
| "grid_run (Suc k) n = (if n \<le> 2 ^ 37 then grid_run k (grid_step n) else None)"

fun grid_ts :: "nat \<Rightarrow> int \<Rightarrow> fl list" where
  "grid_ts 0 n = []"
| "grid_ts (Suc k) n = fl_norm n (- 37) # grid_ts k (grid_step n)"

text \<open>The point that \<^verbatim>\<open>compute_point\<close> appends for the parameter \<open>t\<close>.\<close>

definition bezier_point :: "Point list \<Rightarrow> fl \<Rightarrow> Point" where
  "bezier_point cps t = de_casteljau cps t ! 0"

text \<open>The curve that the step-sampled loop builds from a list of control points.\<close>

definition step_samples :: "Point list \<Rightarrow> Point list" where
  "step_samples cps =
     (if 2 \<le> length cps then map (bezier_point cps) (grid_ts 10000 0) else [])"

text \<open>A point whose two coordinates are \<^verbatim>\<open>float\<close> values.\<close>

definition f32_point :: "Point \<Rightarrow> bool" where
  "f32_point p = (is_f32 (px p) \<and> is_f32 (py p))"

section \<open>The hit test in the words of the specification\<close>

text \<open>
  The specification's hit test: a point \<open>p\<close> is hit by the query \<open>q\<close> when its squared
  distance to \<open>q\<close> is below the threshold squared.
\<close>

definition spec_hit :: "Point \<Rightarrow> Point \<Rightarrow> fl \<Rightarrow> bool" where
  "spec_hit p q threshold =
     (let dx = fsub (px p) (px q); dy = fsub (py p) (py q)
      in fl_less (fadd (fmul dx dx) (fmul dy dy)) (fmul threshold threshold))"


section \<open>The evaluation in the words of the specification\<close>

text \<open>
  De Casteljau's algorithm as the specification words it: for a parameter \<open>t\<close> the points
  are collapsed by interpolating adjacent pairs, \<open>p[i] * (1 - t) + p[i + 1] * t\<close>, for
  \<open>count - 1\<close> rounds, and the one remaining point is the curve point at \<open>t\<close>. The
  parameters are \<open>R + 1\<close> evenly spaced values for a resolution \<open>R\<close>, and for a step \<open>s\<close>
  the multiples \<open>0, s, 2 * s, \<dots>\<close>, of which there are \<open>floor (1 / s) + 1\<close>. Fewer than two
  points give the empty sequence.
\<close>

definition spec_lerp :: "fl \<Rightarrow> Point \<Rightarrow> Point \<Rightarrow> Point" where
  "spec_lerp t p q = padd (pmul p (fsub f_one t)) (pmul q t)"

fun spec_collapse :: "fl \<Rightarrow> Point list \<Rightarrow> Point list" where
  "spec_collapse t (p # q # ps) = spec_lerp t p q # spec_collapse t (q # ps)"
| "spec_collapse t ps = []"

definition spec_curve_point :: "Point list \<Rightarrow> fl \<Rightarrow> Point" where
  "spec_curve_point cps t = hd ((spec_collapse t ^^ (length cps - 1)) cps)"

definition spec_params_resolution :: "nat \<Rightarrow> fl list" where
  "spec_params_resolution R =
     map (\<lambda>i. fdiv (f32_of_int (int i)) (f32_of_int (int R))) [0..<R + 1]"

text \<open>\<open>floor (1 / s) + 1\<close> for a positive step \<open>s = m * 2 ^ e\<close>.\<close>

definition spec_step_count :: "fl \<Rightarrow> nat" where
  "spec_step_count s =
     nat (if snd s \<le> 0 then 2 ^ nat (- snd s) div fst s
          else 1 div (fst s * 2 ^ nat (snd s))) + 1"

definition spec_params_step :: "fl \<Rightarrow> fl list" where
  "spec_params_step s = map (\<lambda>k. fmul (f32_of_int (int k)) s) [0..<spec_step_count s]"

definition spec_evaluate :: "fl list \<Rightarrow> Point list \<Rightarrow> Point list" where
  "spec_evaluate params cps =
     (if length cps < 2 then [] else map (spec_curve_point cps) params)"

text \<open>The flat list of floats of the resolution-sampled editor, read as points, and back.\<close>

definition points_of :: "fl list \<Rightarrow> Point list" where
  "points_of xs = map (\<lambda>i. Point (xs ! (i * 2)) (xs ! (i * 2 + 1))) [0..<length xs div 2]"

definition flat_of :: "Point list \<Rightarrow> fl list" where
  "flat_of ps = concat (map (\<lambda>p. [px p, py p]) ps)"

section \<open>Evaluation rules\<close>

text \<open>
  Equations that let the simplifier compute with numerals.
\<close>

lemma fl_norm_num:
  "fl_norm 0 e = (0, 0)"
  "fl_norm 1 e = (1, e)"
  "fl_norm (- 1) e = (- 1, e)"
  "fl_norm (numeral Num.One) e = (1, e)"
  "fl_norm (numeral (Num.Bit0 k)) e = fl_norm (numeral k) (e + 1)"
  "fl_norm (numeral (Num.Bit1 k)) e = (numeral (Num.Bit1 k), e)"
  "fl_norm (- numeral Num.One) e = (- 1, e)"
  "fl_norm (- numeral (Num.Bit0 k)) e = fl_norm (- numeral k) (e + 1)"
  "fl_norm (- numeral (Num.Bit1 k)) e = (- numeral (Num.Bit1 k), e)"
  by (subst fl_norm.simps, simp)+

lemma bit_length_num:
  "bit_length 0 = 0"
  "bit_length 1 = 1"
  "bit_length (numeral Num.One) = 1"
  "bit_length (numeral (Num.Bit0 k)) = Suc (bit_length (numeral k))"
  "bit_length (numeral (Num.Bit1 k)) = Suc (bit_length (numeral k))"
  "bit_length (- numeral k) = 0"
  by (subst bit_length.simps, simp)+

lemma isqrt_num:
  "isqrt 0 = 0"
  "isqrt 1 = 1"
  "isqrt (numeral k) =
     (let r = 2 * isqrt (numeral k div 4) in if (r + 1) * (r + 1) \<le> numeral k then r + 1 else r)"
  by (subst isqrt.simps, simp add: isqrt.simps[of 0])+

lemmas fl_eval =
  fl_norm_num bit_length_num isqrt_num rne_frac_def rnd_int_def rnd_def exact_add_def fl_neg_def
  fl_add_def fl_sub_def fl_mul_def fl_div_def fl_sqrt_def fl_le_def fl_less_def f32_of_int_def
  f32_lit_def fadd_def fsub_def fmul_def fdiv_def f_zero_def f_one_def Let_def

lemmas glfw_eval =
  GLFW_RELEASE_def GLFW_PRESS_def GLFW_MOUSE_BUTTON_LEFT_def GLFW_MOUSE_BUTTON_RIGHT_def
  GLFW_KEY_SPACE_def GLFW_KEY_ENTER_def GLFW_KEY_DELETE_def

section \<open>The step-sampled loop runs 10000 times\<close>

text \<open>
  Inside one binade the rounded sum advances by a constant, so the run of the loop is
  followed binade by binade; the passes that enter a new binade are computed one by one.
\<close>

lemma bit_length_unique: "2 ^ k \<le> m \<Longrightarrow> m < 2 ^ Suc k \<Longrightarrow> bit_length m = Suc k"
proof (induction k arbitrary: m)
  case 0
  then have "m = 1" by simp
  then show ?case by (simp add: bit_length_num)
next
  case (Suc k)
  have pos: "0 < m" using Suc.prems(1) by (smt (verit) zero_less_power)
  have "2 ^ k \<le> m div 2" using Suc.prems(1) by simp
  moreover have "m div 2 < 2 ^ Suc k" using Suc.prems(2) by simp
  ultimately have "bit_length (m div 2) = Suc k" by (rule Suc.IH)
  then show ?case using pos by (subst bit_length.simps) simp
qed

lemma rne_frac_shift:
  assumes "0 < d" "2 * (s mod d) \<noteq> d"
  shows "rne_frac (a * d + s) d = a + rne_frac s d"
  using assms by (simp add: rne_frac_def Let_def)

lemma rne_frac_one: "rne_frac s 1 = s"
  by (simp add: rne_frac_def)

lemma grid_step_linear:
  assumes "n mod 2 ^ j = 0" "2 ^ (23 + j) \<le> n + 13743895" "n + 13743895 < 2 ^ (24 + j)"
    "2 * (13743895 mod 2 ^ j) \<noteq> (2::int) ^ j"
  shows "grid_step n = n + rne_frac 13743895 (2 ^ j) * 2 ^ j"
proof -
  let ?m = "n + 13743895"
  have bl: "bit_length ?m = 24 + j"
    using bit_length_unique[of "23 + j" ?m] assms(2,3) by simp
  have pos: "0 < ?m" using assms(2) by (smt (verit) zero_less_power)
  obtain a where a: "n = a * 2 ^ j" using assms(1) by (metis mod_eq_0_iff_dvd dvd_def mult.commute)
  show ?thesis
  proof (cases "j = 0")
    case True
    then show ?thesis using bl pos by (simp add: grid_step_def rnd_int_def rne_frac_one)
  next
    case False
    have "rne_frac ?m (2 ^ j) = a + rne_frac 13743895 (2 ^ j)"
      unfolding a using assms(4) by (intro rne_frac_shift) simp_all
    then show ?thesis using bl pos False
      by (simp add: grid_step_def rnd_int_def a algebra_simps)
  qed
qed

lemma grid_run_linear:
  assumes "n mod 2 ^ j = 0" "D = rne_frac 13743895 (2 ^ j) * 2 ^ j" "0 \<le> D"
    "2 * (13743895 mod 2 ^ j) \<noteq> (2::int) ^ j"
    "2 ^ (23 + j) \<le> n + 13743895"
    "n + (int k - 1) * D + 13743895 < 2 ^ (24 + j)"
    "n + (int k - 1) * D \<le> 2 ^ 37"
  shows "grid_run k n = Some (n + int k * D)"
  using assms(1,5,6,7)
proof (induction k arbitrary: n)
  case 0
  then show ?case by simp
next
  case (Suc k)
  have kD: "0 \<le> int k * D" using assms(3) by simp
  have le: "n \<le> 2 ^ 37" using Suc.prems(4) kD by (simp add: algebra_simps)
  have up: "n + 13743895 < 2 ^ (24 + j)" using Suc.prems(3) kD by (simp add: algebra_simps)
  have st: "grid_step n = n + D"
    unfolding assms(2) using Suc.prems(1,2) up assms(4) by (rule grid_step_linear)
  have Dm: "D mod 2 ^ j = 0" unfolding assms(2) by simp
  have "grid_run k (n + D) = Some (n + D + int k * D)"
  proof (rule Suc.IH)
    show "(n + D) mod 2 ^ j = 0" using Suc.prems(1) Dm by (simp add: mod_add_eq [symmetric] del: mod_add_eq)
    show "2 ^ (23 + j) \<le> n + D + 13743895" using Suc.prems(2) assms(3) by simp
    show "n + D + (int k - 1) * D + 13743895 < 2 ^ (24 + j)"
      using Suc.prems(3) by (simp add: algebra_simps)
    show "n + D + (int k - 1) * D \<le> 2 ^ 37"
      using Suc.prems(4) by (simp add: algebra_simps)
  qed
  then show ?case using le st by (simp add: algebra_simps)
qed

lemma grid_run_trans:
  "grid_run a n = Some m \<Longrightarrow> grid_run b m = Some m' \<Longrightarrow> grid_run (a + b) n = Some m'"
  by (induction a arbitrary: n) (auto split: if_splits)

lemma grid_run_num:
  "grid_run (numeral k) n =
     (if n \<le> 2 ^ 37 then grid_run (pred_numeral k) (grid_step n) else None)"
  by (simp add: numeral_eq_Suc)

lemmas grid_eval = grid_step_def rnd_int_def rne_frac_def bit_length_num Let_def

lemma grid_run_9999: "grid_run 9999 0 = Some 137432571904"
proof -
  have s0: "grid_run 5 0 = Some 68719472"
    by (simp add: grid_run_num grid_eval)
  have s1: "grid_run 4 68719472 = Some 123695056"
    using grid_run_linear [of 68719472 3 13743896 4] by (simp add: rne_frac_def)
  have c1: "grid_run 9 0 = Some 123695056"
    using grid_run_trans [OF s0 s1] by simp
  have s2: "grid_run 10 123695056 = Some 261133936"
    using grid_run_linear [of 123695056 4 13743888 10] by (simp add: rne_frac_def)
  have c2: "grid_run 19 0 = Some 261133936"
    using grid_run_trans [OF c1 s2] by simp
  have s3: "grid_run 1 261133936 = Some 274877824"
    by (simp add: grid_run_num grid_eval)
  have c3: "grid_run 20 0 = Some 274877824"
    using grid_run_trans [OF c2 s3] by simp
  have s4: "grid_run 19 274877824 = Some 536012000"
    using grid_run_linear [of 274877824 5 13743904 19] by (simp add: rne_frac_def)
  have c4: "grid_run 39 0 = Some 536012000"
    using grid_run_trans [OF c3 s4] by simp
  have s5: "grid_run 1 536012000 = Some 549755904"
    by (simp add: grid_run_num grid_eval)
  have c5: "grid_run 40 0 = Some 549755904"
    using grid_run_trans [OF c4 s5] by simp
  have s6: "grid_run 38 549755904 = Some 1072023040"
    using grid_run_linear [of 549755904 6 13743872 38] by (simp add: rne_frac_def)
  have c6: "grid_run 78 0 = Some 1072023040"
    using grid_run_trans [OF c5 s6] by simp
  have s7: "grid_run 78 1072023040 = Some 2144045056"
    using grid_run_linear [of 1072023040 7 13743872 78] by (simp add: rne_frac_def)
  have c7: "grid_run 156 0 = Some 2144045056"
    using grid_run_trans [OF c6 s7] by simp
  have s8: "grid_run 156 2144045056 = Some 4288089088"
    using grid_run_linear [of 2144045056 8 13743872 156] by (simp add: rne_frac_def)
  have c8: "grid_run 312 0 = Some 4288089088"
    using grid_run_trans [OF c7 s8] by simp
  have s9: "grid_run 312 4288089088 = Some 8576257024"
    using grid_run_linear [of 4288089088 9 13744128 312] by (simp add: rne_frac_def)
  have c9: "grid_run 624 0 = Some 8576257024"
    using grid_run_trans [OF c8 s9] by simp
  have s10: "grid_run 625 8576257024 = Some 17166337024"
    using grid_run_linear [of 8576257024 10 13744128 625] by (simp add: rne_frac_def)
  have c10: "grid_run 1249 0 = Some 17166337024"
    using grid_run_trans [OF c9 s10] by simp
  have s11: "grid_run 1 17166337024 = Some 17180080128"
    by (simp add: grid_run_num grid_eval)
  have c11: "grid_run 1250 0 = Some 17180080128"
    using grid_run_trans [OF c10 s11] by simp
  have s12: "grid_run 1249 17180080128 = Some 34346496000"
    using grid_run_linear [of 17180080128 11 13744128 1249] by (simp add: rne_frac_def)
  have c12: "grid_run 2499 0 = Some 34346496000"
    using grid_run_trans [OF c11 s12] by simp
  have s13: "grid_run 2501 34346496000 = Some 68715438080"
    using grid_run_linear [of 34346496000 12 13742080 2501] by (simp add: rne_frac_def)
  have c13: "grid_run 5000 0 = Some 68715438080"
    using grid_run_trans [OF c12 s13] by simp
  have s14: "grid_run 4999 68715438080 = Some 137432571904"
    using grid_run_linear [of 68715438080 13 13746176 4999] by (simp add: rne_frac_def)
  have c14: "grid_run 9999 0 = Some 137432571904"
    using grid_run_trans [OF c13 s14] by simp
  show ?thesis by (rule c14)
qed

lemma grid_run_10000: "grid_run 10000 0 = Some 137446309888"
proof -
  have "grid_run 1 137432571904 = Some 137446309888"
    by (simp add: grid_eval)
  from grid_run_trans [OF grid_run_9999 this] show ?thesis by simp
qed

text \<open>
  The loop of \<^verbatim>\<open>compute_curve\<close> follows the run on the grid: it returns, with one
  point for each of the 10000 parameters.
\<close>

lemma fl_norm_shape:
  "m \<noteq> 0 \<Longrightarrow>
     fst (fl_norm m e) * 2 ^ nat (snd (fl_norm m e) - e) = m \<and> e \<le> snd (fl_norm m e)"
proof (induction m e rule: fl_norm.induct)
  case (1 m e)
  show ?case
  proof (cases "even m")
    case True
    with "1.prems" have h: "m div 2 \<noteq> 0" by auto
    let ?r = "fl_norm (m div 2) (e + 1)"
    from "1.IH" [OF "1.prems" True h]
    have ih: "fst ?r * 2 ^ nat (snd ?r - (e + 1)) = m div 2" "e + 1 \<le> snd ?r" by auto
    have eq: "fl_norm m e = ?r" using "1.prems" True by (subst fl_norm.simps) simp
    have "nat (snd ?r - e) = Suc (nat (snd ?r - (e + 1)))" using ih(2) by simp
    then have "fst ?r * 2 ^ nat (snd ?r - e) = 2 * (fst ?r * 2 ^ nat (snd ?r - (e + 1)))"
      by simp
    also have "\<dots> = m" using ih(1) True by simp
    finally show ?thesis using eq ih(2) by simp
  next
    case False
    then have "fl_norm m e = (m, e)" using "1.prems" by (subst fl_norm.simps) simp
    then show ?thesis by simp
  qed
qed

lemma exact_add_grid:
  "exact_add (fl_norm n (- 37)) (13743895, - 37) = (n + 13743895, - 37)"
proof (cases "n = 0")
  case True
  then show ?thesis by (simp add: exact_add_def fl_norm_num)
next
  case False
  from fl_norm_shape [OF False, of "- 37"]
  have sh: "fst (fl_norm n (- 37)) * 2 ^ nat (snd (fl_norm n (- 37)) + 37) = n"
    "- 37 \<le> snd (fl_norm n (- 37))" by auto
  from sh(2) have "min (snd (fl_norm n (- 37))) (- 37) = - 37" by simp
  then show ?thesis using sh(1) by (simp add: exact_add_def Let_def)
qed

lemma CURVE_STEP_value: "CURVE_STEP = (13743895, - 37)"
  by (simp add: CURVE_STEP_def fl_eval)

lemma fadd_grid: "fadd (fl_norm n (- 37)) CURVE_STEP = fl_norm (grid_step n) (- 37)"
  by (simp add: fadd_def fl_add_def CURVE_STEP_value exact_add_grid rnd_def grid_step_def)

lemma fl_le_grid: "fl_le (fl_norm n (- 37)) f_one \<longleftrightarrow> n \<le> 2 ^ 37"
proof (cases "n = 0")
  case True
  then show ?thesis by (simp add: fl_le_def f_one_def fl_norm_num)
next
  case False
  let ?m = "fst (fl_norm n (- 37))" and ?e = "snd (fl_norm n (- 37))"
  from fl_norm_shape [OF False, of "- 37"]
  have sh: "?m * 2 ^ nat (?e + 37) = n" "- 37 \<le> ?e" by auto
  show ?thesis
  proof (cases "?e \<le> 0")
    case True
    have "nat (- ?e) + nat (?e + 37) = 37" using True sh(2) by simp
    then have p: "(2::int) ^ nat (- ?e) * 2 ^ nat (?e + 37) = 2 ^ 37"
      by (simp add: power_add [symmetric] del: power_add)
    have "fl_le (fl_norm n (- 37)) f_one \<longleftrightarrow> ?m \<le> 2 ^ nat (- ?e)"
      using True by (simp add: fl_le_def f_one_def Let_def min_def)
    also have "\<dots> \<longleftrightarrow> ?m * 2 ^ nat (?e + 37) \<le> 2 ^ nat (- ?e) * 2 ^ nat (?e + 37)"
      by simp
    finally show ?thesis using sh(1) p by simp
  next
    case False
    have "nat (?e + 37) = nat ?e + 37" using False by simp
    then have n: "n = (?m * 2 ^ nat ?e) * 2 ^ 37"
      using sh(1) by (simp add: power_add)
    have "fl_le (fl_norm n (- 37)) f_one \<longleftrightarrow> ?m * 2 ^ nat ?e \<le> 1"
      using False by (simp add: fl_le_def f_one_def Let_def min_def)
    also have "\<dots> \<longleftrightarrow> (?m * 2 ^ nat ?e) * 2 ^ 37 \<le> 1 * 2 ^ 37"
      by (subst mult_le_cancel_right) simp
    also have "\<dots> \<longleftrightarrow> n \<le> 2 ^ 37"
      by (subst (2) n) simp
    finally show ?thesis .
  qed
qed

lemma length_fold_lerp: "length (fold (lerp_step t) is temp) = length temp"
  by (induction "is" arbitrary: temp) (simp_all add: lerp_step_def)

lemma length_de_casteljau: "length (de_casteljau cps t) = length cps"
proof -
  have "length (fold (\<lambda>k temp. fold (lerp_step t) [0..<n - k] temp) ks temp) = length temp"
    for ks n temp
    by (induction ks arbitrary: temp) (simp_all add: length_fold_lerp)
  then show ?thesis by (simp add: de_casteljau_def)
qed

lemma compute_point_append:
  "cps \<noteq> [] \<Longrightarrow> compute_point cps t curve = curve @ [bezier_point cps t]"
  using length_de_casteljau [of cps t]
  by (auto simp add: compute_point_def bezier_point_def Let_def)

lemma curve_loop_grid:
  "grid_run k n = Some n' \<Longrightarrow> cps \<noteq> [] \<Longrightarrow>
   curve_loop cps (fl_norm n (- 37)) curve =
   curve_loop cps (fl_norm n' (- 37)) (curve @ map (bezier_point cps) (grid_ts k n))"
proof (induction k arbitrary: n curve)
  case 0
  then show ?case by simp
next
  case (Suc k)
  from Suc.prems(1) have le: "n \<le> 2 ^ 37" and run: "grid_run k (grid_step n) = Some n'"
    by (auto split: if_splits)
  have "curve_loop cps (fl_norm n (- 37)) curve =
        curve_loop cps (fl_norm (grid_step n) (- 37)) (curve @ [bezier_point cps (fl_norm n (- 37))])"
    using le Suc.prems(2)
    by (subst curve_loop.simps) (simp add: fl_le_grid fadd_grid compute_point_append)
  also have "\<dots> = curve_loop cps (fl_norm n' (- 37))
        ((curve @ [bezier_point cps (fl_norm n (- 37))]) @ map (bezier_point cps) (grid_ts k (grid_step n)))"
    using run Suc.prems(2) by (rule Suc.IH)
  finally show ?case by simp
qed

lemma curve_loop_result:
  assumes "cps \<noteq> []"
  shows "curve_loop cps f_zero [] = Some (map (bezier_point cps) (grid_ts 10000 0))"
proof -
  have z: "f_zero = fl_norm 0 (- 37)" by (simp add: f_zero_def fl_norm_num)
  have "curve_loop cps f_zero [] =
        curve_loop cps (fl_norm 137446309888 (- 37)) ([] @ map (bezier_point cps) (grid_ts 10000 0))"
    unfolding z using grid_run_10000 assms by (rule curve_loop_grid)
  also have "\<dots> = Some (map (bezier_point cps) (grid_ts 10000 0))"
    by (subst curve_loop.simps) (simp add: fl_le_grid)
  finally show ?thesis .
qed

lemma length_grid_ts: "length (grid_ts k n) = k"
  by (induction k arbitrary: n) simp_all

lemma grid_ts_snoc:
  "grid_run k n = Some m \<Longrightarrow> grid_ts (Suc k) n = grid_ts k n @ [fl_norm m (- 37)]"
  by (induction k arbitrary: n) (auto split: if_splits)

lemma grid_ts_10000_last: "last (grid_ts 10000 0) = (16776437, - 24)"
proof -
  have "grid_ts (Suc 9999) 0 = grid_ts 9999 0 @ [fl_norm 137432571904 (- 37)]"
    using grid_run_9999 by (rule grid_ts_snoc)
  then have "last (grid_ts 10000 0) = fl_norm 137432571904 (- 37)"
    by simp
  then show ?thesis by (simp add: fl_norm_num)
qed

lemma grid_ts_10000_nonempty: "grid_ts 10000 0 \<noteq> []"
  using length_grid_ts [of 10000 0] by auto

lemma grid_ts_hd: "0 < k \<Longrightarrow> hd (grid_ts k n) = fl_norm n (- 37)"
  by (cases k) simp_all

lemma compute_curve_eq:
  "compute_curve s = Inr (s\<lparr>curve_points := step_samples (control_points s)\<rparr>)"
proof (cases "2 \<le> length (control_points s)")
  case True
  then have "control_points s \<noteq> []" by auto
  then show ?thesis using True
    by (simp add: compute_curve_def step_samples_def curve_loop_result)
next
  case False
  then show ?thesis by (simp add: compute_curve_def step_samples_def)
qed

lemma compute_curve_fixed:
  "compute_curve s = Inr s \<longleftrightarrow> curve_points s = step_samples (control_points s)"
proof
  assume "compute_curve s = Inr s"
  then have "s = s\<lparr>curve_points := step_samples (control_points s)\<rparr>"
    by (simp add: compute_curve_eq)
  then have "curve_points s = curve_points (s\<lparr>curve_points := step_samples (control_points s)\<rparr>)"
    by simp
  then show "curve_points s = step_samples (control_points s)" by simp
next
  assume "curve_points s = step_samples (control_points s)"
  then show "compute_curve s = Inr s" by (simp add: compute_curve_eq)
qed

section \<open>Rounding and the constants 0 and 1\<close>

text \<open>
  Rounding does not depend on how a value is written as \<open>m * 2 ^ e\<close>; hence adding
  zero and multiplying by one leave a \<^verbatim>\<open>float\<close> as it is.
\<close>

lemma fl_norm_shift: "fl_norm (m * 2 ^ k) e = fl_norm m (e + int k)"
proof (induction k arbitrary: e)
  case 0
  show ?case by simp
next
  case (Suc k)
  show ?case
  proof (cases "m = 0")
    case True
    then show ?thesis by (simp add: fl_norm_num)
  next
    case False
    have "fl_norm (m * 2 ^ Suc k) e = fl_norm (m * 2 ^ k) (e + 1)"
      using False by (subst fl_norm.simps) simp
    also have "\<dots> = fl_norm m (e + 1 + int k)" by (rule Suc.IH)
    finally show ?thesis by (simp add: add.assoc)
  qed
qed

lemma bit_length_shift: "0 < m \<Longrightarrow> bit_length (m * 2 ^ k) = bit_length m + k"
proof (induction k)
  case 0
  show ?case by simp
next
  case (Suc k)
  have "0 < m * 2 ^ Suc k" using Suc.prems by simp
  then have "bit_length (m * 2 ^ Suc k) = Suc (bit_length (m * 2 ^ Suc k div 2))"
    by (subst bit_length.simps) simp
  then show ?case using Suc by simp
qed

lemma rne_frac_scale: "0 < c \<Longrightarrow> rne_frac (n * c) (d * c) = rne_frac n d"
proof -
  assume c: "0 < c"
  have m: "(n * c) mod (d * c) = (n mod d) * c" by (simp add: mult_mod_left)
  have q: "(n * c) div (d * c) = n div d" using c by simp
  have l1: "2 * ((n mod d) * c) < d * c \<longleftrightarrow> 2 * (n mod d) < d"
    using c by (metis mult.assoc mult_less_cancel_right_pos)
  have l2: "d * c < 2 * ((n mod d) * c) \<longleftrightarrow> d < 2 * (n mod d)"
    using c by (metis mult.assoc mult_less_cancel_right_pos)
  show ?thesis unfolding rne_frac_def Let_def m q l1 l2 ..
qed

lemma rne_frac_exact: "0 < d \<Longrightarrow> rne_frac (a * d) d = a"
  by (simp add: rne_frac_def)

lemma rnd_int_scale: "rnd_int p (m * 2 ^ k) = rnd_int p m * 2 ^ k"
proof (cases "m = 0")
  case True
  then show ?thesis by (simp add: rnd_int_def bit_length_num)
next
  case False
  then have pos: "0 < \<bar>m\<bar>" by simp
  have ab: "\<bar>m * 2 ^ k\<bar> = \<bar>m\<bar> * 2 ^ k" by (simp add: abs_mult)
  have bl: "bit_length \<bar>m * 2 ^ k\<bar> = bit_length \<bar>m\<bar> + k"
    unfolding ab using pos by (rule bit_length_shift)
  show ?thesis
  proof (cases "bit_length \<bar>m\<bar> \<le> p")
    case small: True
    show ?thesis
    proof (cases "bit_length \<bar>m\<bar> + k \<le> p")
      case True
      then show ?thesis using small by (simp add: rnd_int_def bl)
    next
      case False
      define j where "j = bit_length \<bar>m\<bar> + k - p"
      have jk: "j \<le> k" using small by (simp add: j_def)
      have sp: "m * 2 ^ k = (m * 2 ^ (k - j)) * 2 ^ j"
        using jk by (simp add: power_add [symmetric] del: power_add)
      have "rne_frac ((m * 2 ^ (k - j)) * 2 ^ j) (2 ^ j) = m * 2 ^ (k - j)"
        by (rule rne_frac_exact) simp
      then have "rne_frac (m * 2 ^ k) (2 ^ j) * 2 ^ j = m * 2 ^ k"
        using sp by metis
      then show ?thesis using small False by (simp add: rnd_int_def bl j_def)
    qed
  next
    case big: False
    define j where "j = bit_length \<bar>m\<bar> - p"
    have e: "bit_length \<bar>m\<bar> + k - p = j + k" using big by (simp add: j_def)
    have "rne_frac (m * 2 ^ k) (2 ^ (j + k)) = rne_frac m (2 ^ j)"
      using rne_frac_scale [of "2 ^ k" m "2 ^ j"] by (simp add: power_add)
    then show ?thesis using big
      by (simp add: rnd_int_def bl e j_def [symmetric] power_add)
  qed
qed

lemma rnd_shift: "rnd p (m * 2 ^ k, e) = rnd p (m, e + int k)"
  by (simp add: rnd_def rnd_int_scale fl_norm_shift)

lemma fmul_one: "is_f32 a \<Longrightarrow> fmul f_one a = a"
  by (simp add: fmul_def fl_mul_def f_one_def is_f32_def)

lemma fmul_zero: "fmul f_zero a = f_zero"
  by (simp add: fmul_def fl_mul_def f_zero_def rnd_def rnd_int_def bit_length_num fl_norm_num)

lemma exact_add_zero: "rnd p (exact_add a (0, 0)) = rnd p a" "rnd p (exact_add (0, 0) a) = rnd p a"
proof -
  have "rnd p (fst a * 2 ^ nat (snd a - min (snd a) 0), min (snd a) 0) = rnd p a"
  proof (cases "snd a \<le> 0")
    case True
    then show ?thesis by (simp add: min_def)
  next
    case False
    then have "rnd p (fst a * 2 ^ nat (snd a), 0) = rnd p (fst a, 0 + int (nat (snd a)))"
      by (intro rnd_shift)
    then show ?thesis using False by (simp add: min_def)
  qed
  then show "rnd p (exact_add a (0, 0)) = rnd p a" "rnd p (exact_add (0, 0) a) = rnd p a"
    by (simp_all add: exact_add_def Let_def min.commute)
qed

lemma fadd_zero: "is_f32 a \<Longrightarrow> fadd a f_zero = a" "is_f32 a \<Longrightarrow> fadd f_zero a = a"
  by (simp_all add: fadd_def fl_add_def f_zero_def exact_add_zero is_f32_def)

lemma fsub_one: "fsub f_one f_zero = f_one" "fsub f_one f_one = f_zero"
  by (simp_all add: fl_eval)

section \<open>Evaluation of the handlers\<close>

lemmas class_eval =
  BezierCurve_init_def handle_mouse_press_def handle_mouse_release_def handle_key_def
  compute_curve_eq erase_def is_close_def pow2d_def POINT_THRESHOLD_def drawn_point_def

lemmas casteljau_eval =
  bezier_point_def de_casteljau_def lerp_step_def pmul_def padd_def upt_rec

lemma getPointDistance_eval:
  "getPointDistance g i x y =
     fadd (fmul (fsub (controlPoints g ! (i * 2)) x) (fsub (controlPoints g ! (i * 2)) x))
       (fmul (fsub (controlPoints g ! (i * 2 + 1)) y) (fsub (controlPoints g ! (i * 2 + 1)) y))"
  by (simp add: getPointDistance_def Let_def)

lemma seed_points:
  "controlPoints main_init =
     [(- 13421773, - 24), (- 13421773, - 24), (- 13421773, - 25), (7549747, - 23),
      (13421773, - 25), (- 7549747, - 23), (13421773, - 24), (13421773, - 24)]"
  by (simp add: main_init_def updateBuffers_def fl_eval)

lemma cursor_720_60:
  "screenToGLCoords (720, 0) (60, 0) = ((3355443, - 22), (13421773, - 24))"
  by (simp add: screenToGLCoords_def WINDOW_WIDTH_def WINDOW_HEIGHT_def fl_eval)

lemma cursor_400_300: "screenToGLCoords (400, 0) (300, 0) = ((0, 0), (0, 0))"
  by (simp add: screenToGLCoords_def WINDOW_WIDTH_def WINDOW_HEIGHT_def fl_eval)

lemma find_720_60:
  "findPointUnderCursor main_init (3355443, - 22) (13421773, - 24) default_threshold = 3"
  by (simp add: findPointUnderCursor_def find_from.simps getPointDistance_eval seed_points
      default_threshold_def fl_eval)

lemma find_720_60_three:
  "findPointUnderCursor (main_init\<lparr>dragging := True, draggedIndex := 3\<rparr>)
     (3355443, - 22) (13421773, - 24) default_threshold = 3"
  by (simp add: findPointUnderCursor_def find_from.simps getPointDistance_eval seed_points
      default_threshold_def fl_eval)

lemma find_from_empty: "controlPoints g = [] \<Longrightarrow> findPointUnderCursor g x y threshold = - 1"
  by (simp add: findPointUnderCursor_def find_from.simps)

section \<open>The ends of the sampled curves\<close>

text \<open>
  At \<open>t = 0\<close> De Casteljau's rounds leave every point as it is, at \<open>t = 1\<close> every round
  shifts the points down by one. So the first sample of both editors is the first control
  point, and the last sample of the resolution-sampled editor, taken at
  \<open>t = 100 / 100\<close>, is the last control point. The resolution-sampled editor returns
  \<open>CURVE_RESOLUTION + 1\<close> points (twice as many floats), the step-sampled editor 10000.
\<close>

lemma lerp_step_zero:
  "i < length temp \<Longrightarrow> f32_point (temp ! i) \<Longrightarrow> lerp_step f_zero i temp = temp"
proof -
  assume i: "i < length temp" and f: "f32_point (temp ! i)"
  have "padd (pmul (temp ! i) (fsub f_one f_zero)) (pmul (temp ! (i + 1)) f_zero) = temp ! i"
    using f by (cases "temp ! i")
      (simp add: pmul_def padd_def f32_point_def fsub_one fmul_one fmul_zero fadd_zero)
  then show ?thesis by (simp add: lerp_step_def)
qed

lemma fold_lerp_zero:
  "\<forall>p\<in>set temp. f32_point p \<Longrightarrow> \<forall>i\<in>set is. i < length temp \<Longrightarrow>
   fold (lerp_step f_zero) is temp = temp"
  by (induction "is") (simp_all add: lerp_step_zero)

lemma de_casteljau_zero:
  assumes "\<forall>p\<in>set cps. f32_point p"
  shows "de_casteljau cps f_zero = cps"
proof -
  have "fold (lerp_step f_zero) [0..<length cps - k] cps = cps" for k
    by (rule fold_lerp_zero) (auto simp add: assms)
  then have "fold (\<lambda>k temp. fold (lerp_step f_zero) [0..<length cps - k] temp) ks cps = cps" for ks
    by (induction ks) simp_all
  then show ?thesis by (simp add: de_casteljau_def)
qed

lemma step_curve_first:
  assumes "2 \<le> length cps" "\<forall>p\<in>set cps. f32_point p"
  shows "hd (step_samples cps) = hd cps"
proof -
  have "hd (step_samples cps) = bezier_point cps (hd (grid_ts 10000 0))"
    using assms(1) by (simp add: step_samples_def hd_map grid_ts_10000_nonempty)
  also have "hd (grid_ts 10000 0) = f_zero"
    by (simp add: grid_ts_hd fl_norm_num f_zero_def)
  also have "bezier_point cps f_zero = cps ! 0"
    by (simp add: bezier_point_def de_casteljau_zero assms(2))
  also have "\<dots> = hd cps" using assms(1) by (cases cps) simp_all
  finally show ?thesis .
qed

lemma step_curve_length: "2 \<le> length cps \<Longrightarrow> length (step_samples cps) = 10000"
  by (simp add: step_samples_def length_grid_ts)

lemma fold_append_concat:
  "fold (\<lambda>i curve. curve @ h i) is acc = acc @ concat (map h is)"
  by (induction "is" arbitrary: acc) simp_all

lemma computeBezierCurve_concat:
  assumes "2 \<le> length points div 2"
  shows "computeBezierCurve points =
     concat (map (\<lambda>i. [casteljau (length points div 2 - 1)
                          (fdiv (f32_of_int (int i)) (f32_of_int (int CURVE_RESOLUTION))) points ! 0,
                        casteljau (length points div 2 - 1)
                          (fdiv (f32_of_int (int i)) (f32_of_int (int CURVE_RESOLUTION))) points ! 1])
               [0..<CURVE_RESOLUTION + 1])"
proof -
  have n: "nat (int (length points div 2) - 1) = length points div 2 - 1" by simp
  have "\<not> int (length points div 2) - 1 < 1" using assms by simp
  then show ?thesis
    unfolding computeBezierCurve_def Let_def n
    by (simp only: if_False fold_append_concat append_Nil)
qed

lemma concat_pairs:
  "length (concat (map (\<lambda>i. [f i, g i]) [0..<m])) = 2 * m"
  "i < m \<Longrightarrow> concat (map (\<lambda>i. [f i, g i]) [0..<m]) ! (2 * i) = f i"
  "i < m \<Longrightarrow> concat (map (\<lambda>i. [f i, g i]) [0..<m]) ! (2 * i + 1) = g i"
proof -
  show len: "length (concat (map (\<lambda>i. [f i, g i]) [0..<m])) = 2 * m" for m
    by (induction m) simp_all
  show "i < m \<Longrightarrow> concat (map (\<lambda>i. [f i, g i]) [0..<m]) ! (2 * i) = f i"
  proof (induction m)
    case 0
    then show ?case by simp
  next
    case (Suc m)
    then show ?case by (cases "i < m") (auto simp add: nth_append len less_Suc_eq)
  qed
  show "i < m \<Longrightarrow> concat (map (\<lambda>i. [f i, g i]) [0..<m]) ! (2 * i + 1) = g i"
  proof (induction m)
    case 0
    then show ?case by simp
  next
    case (Suc m)
    then show ?case by (cases "i < m") (auto simp add: nth_append len less_Suc_eq)
  qed
qed

lemma resolution_curve_length:
  "2 \<le> length points div 2 \<Longrightarrow> length (computeBezierCurve points) = 2 * (CURVE_RESOLUTION + 1)"
  by (simp only: computeBezierCurve_concat concat_pairs(1))

lemma t_first: "fdiv (f32_of_int 0) (f32_of_int (int CURVE_RESOLUTION)) = f_zero"
  by (simp add: CURVE_RESOLUTION_def fl_eval)

lemma t_last:
  "fdiv (f32_of_int (int CURVE_RESOLUTION)) (f32_of_int (int CURVE_RESOLUTION)) = f_one"
  by (simp add: CURVE_RESOLUTION_def fl_eval)

lemma casteljau_step_zero:
  assumes "j * 2 + 1 < length temp" "\<forall>a\<in>set temp. is_f32 a"
  shows "casteljau_step f_zero j temp = temp"
proof -
  have a: "is_f32 (temp ! (j * 2))" "is_f32 (temp ! (j * 2 + 1))"
    using assms by simp_all
  have "fadd (fmul (fsub f_one f_zero) (temp ! (j * 2))) (fmul f_zero (temp ! ((j + 1) * 2)))
        = temp ! (j * 2)"
    using a by (simp add: fsub_one fmul_one fmul_zero fadd_zero)
  moreover have "fadd (fmul (fsub f_one f_zero) (temp ! (j * 2 + 1)))
        (fmul f_zero (temp ! ((j + 1) * 2 + 1))) = temp ! (j * 2 + 1)"
    using a by (simp add: fsub_one fmul_one fmul_zero fadd_zero)
  ultimately show ?thesis by (simp add: casteljau_step_def Let_def)
qed

lemma casteljau_zero:
  assumes "\<forall>a\<in>set points. is_f32 a" "2 * n + 2 \<le> length points"
  shows "casteljau n f_zero points = points"
proof -
  have inner: "fold (casteljau_step f_zero) js points = points" if "\<forall>j\<in>set js. j \<le> n" for js
    using that assms by (induction js) (simp_all add: casteljau_step_zero)
  have "fold (casteljau_step f_zero) [0..<n - r + 1] points = points" for r
    by (rule inner) auto
  then have "fold (\<lambda>r temp. fold (casteljau_step f_zero) [0..<n - r + 1] temp) rs points = points"
    for rs by (induction rs) simp_all
  then show ?thesis by (simp add: casteljau_def)
qed

lemma casteljau_step_one:
  assumes "(j + 1) * 2 + 1 < length temp" "\<forall>a\<in>set temp. is_f32 a"
  shows "casteljau_step f_one j temp =
         temp[j * 2 := temp ! ((j + 1) * 2), j * 2 + 1 := temp ! ((j + 1) * 2 + 1)]"
proof -
  have a: "is_f32 (temp ! ((j + 1) * 2))" "is_f32 (temp ! ((j + 1) * 2 + 1))"
    using assms by simp_all
  have 1: "fadd (fmul (fsub f_one f_one) u) (fmul f_one (temp ! ((j + 1) * 2))) = temp ! ((j + 1) * 2)"
    for u using a by (simp add: fsub_one fmul_one fmul_zero fadd_zero)
  have 2: "fadd (fmul (fsub f_one f_one) u) (fmul f_one (temp ! ((j + 1) * 2 + 1)))
           = temp ! ((j + 1) * 2 + 1)"
    for u using a by (simp add: fsub_one fmul_one fmul_zero fadd_zero)
  have n: "temp[j * 2 := v] ! ((j + 1) * 2 + 1) = temp ! ((j + 1) * 2 + 1)" for v
    by simp
  show ?thesis unfolding casteljau_step_def Let_def 1 n 2 ..
qed

lemma inner_shift:
  assumes "2 * m + 2 \<le> length temp" "\<forall>a\<in>set temp. is_f32 a"
  shows "length (fold (casteljau_step f_one) [0..<m] temp) = length temp \<and>
         (\<forall>i<length temp. fold (casteljau_step f_one) [0..<m] temp ! i =
            (if i < 2 * m then temp ! (i + 2) else temp ! i))"
  using assms(1)
proof (induction m)
  case 0
  show ?case by simp
next
  case (Suc m)
  let ?r = "fold (casteljau_step f_one) [0..<m] temp"
  from Suc have ih: "length ?r = length temp"
    "\<forall>i<length temp. ?r ! i = (if i < 2 * m then temp ! (i + 2) else temp ! i)"
    by simp_all
  have f32: "\<forall>a\<in>set ?r. is_f32 a"
  proof
    fix a assume "a \<in> set ?r"
    then obtain i where i: "i < length ?r" "a = ?r ! i" by (auto simp add: in_set_conv_nth)
    then have "a = temp ! (i + 2) \<and> i + 2 < length temp \<or> a = temp ! i \<and> i < length temp"
      using ih Suc.prems by (auto split: if_splits)
    then show "is_f32 a" using assms(2) by auto
  qed
  have b: "(m + 1) * 2 + 1 < length ?r" using Suc.prems ih(1) by simp
  have step: "fold (casteljau_step f_one) [0..<Suc m] temp =
        ?r[m * 2 := ?r ! ((m + 1) * 2), m * 2 + 1 := ?r ! ((m + 1) * 2 + 1)]"
    using casteljau_step_one [OF b f32] by simp
  have v: "?r ! ((m + 1) * 2) = temp ! ((m + 1) * 2)"
    "?r ! ((m + 1) * 2 + 1) = temp ! ((m + 1) * 2 + 1)"
    using ih(2) Suc.prems by simp_all
  show ?case
    unfolding step v using ih Suc.prems
    by (auto simp add: nth_list_update)
qed

lemma outer_shift:
  assumes "2 * n + 2 \<le> length points" "\<forall>a\<in>set points. is_f32 a" "R \<le> n"
  shows "\<forall>i<2 * (n - R + 1).
            fold (\<lambda>r temp. fold (casteljau_step f_one) [0..<n - r + 1] temp) [1..<R + 1] points ! i
            = points ! (i + 2 * R)"
proof -
  define F where
    "F R = fold (\<lambda>r temp. fold (casteljau_step f_one) [0..<n - r + 1] temp) [1..<R + 1] points"
    for R
  have F0: "F 0 = points" by (simp add: F_def)
  have FS: "F (Suc R) = fold (casteljau_step f_one) [0..<n - R] (F R)" if "Suc R \<le> n" for R
  proof -
    have up: "[1..<Suc R + 1] = [1..<R + 1] @ [Suc R]" by simp
    have m: "n - Suc R + 1 = n - R" using that by simp
    show ?thesis
      unfolding F_def up by (simp only: fold_append comp_apply fold_simps id_apply m)
  qed
  have "length (F R) = length points \<and> (\<forall>a\<in>set (F R). is_f32 a) \<and>
        (\<forall>i<2 * (n - R + 1). F R ! i = points ! (i + 2 * R))"
    using assms(3)
  proof (induction R)
    case 0
    show ?case using assms(2) by (simp add: F0)
  next
    case (Suc R)
    from Suc have ih: "length (F R) = length points" "\<forall>a\<in>set (F R). is_f32 a"
      "\<forall>i<2 * (n - R + 1). F R ! i = points ! (i + 2 * R)"
      by simp_all
    have len: "2 * (n - R) + 2 \<le> length (F R)" using assms(1) ih(1) by simp
    from inner_shift [OF len ih(2)]
    have sh: "length (F (Suc R)) = length (F R)"
      "\<forall>i<length (F R). F (Suc R) ! i = (if i < 2 * (n - R) then F R ! (i + 2) else F R ! i)"
      unfolding FS [OF Suc.prems] by simp_all
    have f32: "\<forall>a\<in>set (F (Suc R)). is_f32 a"
    proof
      fix a assume "a \<in> set (F (Suc R))"
      then obtain i where i: "i < length (F R)" "a = F (Suc R) ! i"
        using sh(1) by (auto simp add: in_set_conv_nth)
      then have "a = F R ! (i + 2) \<and> i + 2 < length (F R) \<or> a = F R ! i \<and> i < length (F R)"
        using sh(2) len by (auto split: if_splits)
      then show "is_f32 a" using ih(2) by auto
    qed
    have nth: "F (Suc R) ! i = points ! (i + 2 * Suc R)" if "i < 2 * (n - Suc R + 1)" for i
    proof -
      from that have i: "i < 2 * (n - R)" using Suc.prems by simp
      then have "i < length (F R)" using len by simp
      then have "F (Suc R) ! i = F R ! (i + 2)" using sh(2) i by simp
      also have "\<dots> = points ! (i + 2 + 2 * R)" using ih(3) i by simp
      finally show ?thesis by simp
    qed
    show ?case using sh(1) ih(1) f32 nth by simp
  qed
  then show ?thesis unfolding F_def by blast
qed

lemma casteljau_one:
  assumes "2 * n + 2 \<le> length points" "\<forall>a\<in>set points. is_f32 a"
  shows "casteljau n f_one points ! 0 = points ! (2 * n)"
    "casteljau n f_one points ! 1 = points ! (2 * n + 1)"
proof -
  have "\<forall>i<2 * (n - n + 1). casteljau n f_one points ! i = points ! (i + 2 * n)"
    unfolding casteljau_def by (rule outer_shift [OF assms]) simp
  then show "casteljau n f_one points ! 0 = points ! (2 * n)"
    "casteljau n f_one points ! 1 = points ! (2 * n + 1)"
    by simp_all
qed

lemma resolution_curve_endpoints:
  assumes "2 \<le> length points div 2" "\<forall>a\<in>set points. is_f32 a"
  shows "computeBezierCurve points ! 0 = points ! 0 \<and>
         computeBezierCurve points ! 1 = points ! 1 \<and>
         computeBezierCurve points ! (2 * CURVE_RESOLUTION) = points ! (2 * (length points div 2 - 1)) \<and>
         computeBezierCurve points ! (2 * CURVE_RESOLUTION + 1) =
           points ! (2 * (length points div 2 - 1) + 1)"
proof -
  let ?n = "length points div 2 - 1"
  let ?t = "\<lambda>i. fdiv (f32_of_int (int i)) (f32_of_int (int CURVE_RESOLUTION))"
  let ?f = "\<lambda>i. casteljau ?n (?t i) points ! 0"
  let ?g = "\<lambda>i. casteljau ?n (?t i) points ! 1"
  have len: "2 * ?n + 2 \<le> length points" using assms(1) by simp
  have c: "computeBezierCurve points = concat (map (\<lambda>i. [?f i, ?g i]) [0..<CURVE_RESOLUTION + 1])"
    using assms(1) by (rule computeBezierCurve_concat)
  have f0: "?f 0 = points ! 0" and g0: "?g 0 = points ! 1"
    by (simp_all only: of_nat_0 t_first casteljau_zero [OF assms(2) len])
  have f1: "?f CURVE_RESOLUTION = points ! (2 * ?n)"
    and g1: "?g CURVE_RESOLUTION = points ! (2 * ?n + 1)"
    by (simp_all only: t_last casteljau_one [OF len assms(2)])
  have "computeBezierCurve points ! (2 * 0) = ?f 0"
    unfolding c by (rule concat_pairs(2)) simp
  moreover have "computeBezierCurve points ! (2 * 0 + 1) = ?g 0"
    unfolding c by (rule concat_pairs(3)) simp
  moreover have "computeBezierCurve points ! (2 * CURVE_RESOLUTION) = ?f CURVE_RESOLUTION"
    unfolding c by (rule concat_pairs(2)) simp
  moreover have "computeBezierCurve points ! (2 * CURVE_RESOLUTION + 1) = ?g CURVE_RESOLUTION"
    unfolding c by (rule concat_pairs(3)) simp
  ultimately show ?thesis unfolding f0 g0 f1 g1 by simp
qed

section \<open>Both evaluators compute the specification's curve points\<close>

text \<open>
  One round of the in-place loop is one collapse of the specification, so the point that
  either evaluator returns for a parameter is the specification's curve point. The
  resolution-sampled evaluator is, on the flat list, the same loop as the step-sampled one
  on points, its parameters are the specification's, and so its result is the
  specification's evaluation. The step-sampled curve is the specification's evaluation at
  the parameters that the float loop visits.
\<close>

lemma length_spec_collapse: "length (spec_collapse t ps) = length ps - 1"
  by (induction t ps rule: spec_collapse.induct) simp_all

lemma spec_collapse_snoc:
  "ps \<noteq> [] \<Longrightarrow> spec_collapse t (ps @ [q]) = spec_collapse t ps @ [spec_lerp t (last ps) q]"
  by (induction t ps rule: spec_collapse.induct) simp_all

lemma lerp_step_append:
  "length c = m \<Longrightarrow> lerp_step t m (c @ a # b # r) = c @ spec_lerp t a b # b # r"
  by (auto simp add: lerp_step_def spec_lerp_def nth_append)

lemma fold_lerp_collapse:
  "m + 1 \<le> length temp \<Longrightarrow>
   fold (lerp_step t) [0..<m] temp = spec_collapse t (take (m + 1) temp) @ drop m temp"
proof (induction m)
  case 0
  then show ?case by (cases temp) simp_all
next
  case (Suc m)
  let ?c = "spec_collapse t (take (m + 1) temp)"
  have lc: "length ?c = m" using Suc.prems by (simp add: length_spec_collapse)
  have ih: "fold (lerp_step t) [0..<m] temp = ?c @ drop m temp" using Suc by simp
  have d: "drop m temp = temp ! m # temp ! (m + 1) # drop (m + 2) temp"
    using Suc.prems by (simp add: Cons_nth_drop_Suc)
  have tk: "take (Suc m + 1) temp = take (m + 1) temp @ [temp ! (m + 1)]"
    using Suc.prems by (simp add: take_Suc_conv_app_nth)
  have lst: "last (take (m + 1) temp) = temp ! m"
    using Suc.prems by (simp add: take_Suc_conv_app_nth)
  have "fold (lerp_step t) [0..<Suc m] temp = lerp_step t m (?c @ drop m temp)"
    by (simp add: ih)
  also have "\<dots> = ?c @ spec_lerp t (temp ! m) (temp ! (m + 1)) # temp ! (m + 1) # drop (m + 2) temp"
    unfolding d by (rule lerp_step_append [OF lc])
  also have "\<dots> = spec_collapse t (take (Suc m + 1) temp) @ drop (Suc m) temp"
  proof -
    have ne: "take (m + 1) temp \<noteq> []" using Suc.prems by auto
    have "spec_collapse t (take (Suc m + 1) temp) =
          ?c @ [spec_lerp t (temp ! m) (temp ! (m + 1))]"
      unfolding tk spec_collapse_snoc [OF ne] lst ..
    moreover have "drop (Suc m) temp = temp ! (m + 1) # drop (m + 2) temp"
      using Suc.prems by (simp add: Cons_nth_drop_Suc)
    ultimately show ?thesis by simp
  qed
  finally show ?case .
qed


lemma de_casteljau_rounds:
  assumes "K < length cps"
  shows "length (fold (\<lambda>k temp. fold (lerp_step t) [0..<length cps - k] temp) [1..<K + 1] cps)
           = length cps \<and>
         take (length cps - K)
           (fold (\<lambda>k temp. fold (lerp_step t) [0..<length cps - k] temp) [1..<K + 1] cps)
           = (spec_collapse t ^^ K) cps"
proof -
  define F where
    "F K = fold (\<lambda>k temp. fold (lerp_step t) [0..<length cps - k] temp) [1..<K + 1] cps" for K
  have F0: "F 0 = cps" by (simp add: F_def)
  have FS: "F (Suc K) = fold (lerp_step t) [0..<length cps - Suc K] (F K)" for K
  proof -
    have up: "[1..<Suc K + 1] = [1..<K + 1] @ [Suc K]" by simp
    show ?thesis unfolding F_def up by (simp only: fold_append comp_apply fold_simps id_apply)
  qed
  have "length (F K) = length cps \<and> take (length cps - K) (F K) = (spec_collapse t ^^ K) cps"
    using assms
  proof (induction K)
    case 0
    show ?case by (simp add: F0)
  next
    case (Suc K)
    then have ih: "length (F K) = length cps"
      "take (length cps - K) (F K) = (spec_collapse t ^^ K) cps" by simp_all
    let ?m = "length cps - Suc K"
    have m1: "?m + 1 = length cps - K" using Suc.prems by simp
    have le: "?m + 1 \<le> length (F K)" using Suc.prems ih(1) by simp
    have eq: "F (Suc K) = spec_collapse t (take (?m + 1) (F K)) @ drop ?m (F K)"
      unfolding FS using le by (rule fold_lerp_collapse)
    have lc: "length (spec_collapse t (take (?m + 1) (F K))) = ?m"
      using le by (simp add: length_spec_collapse)
    have "length (F (Suc K)) = length cps"
      unfolding eq using lc le ih(1) by simp
    moreover have "take ?m (F (Suc K)) = spec_collapse t (take (?m + 1) (F K))"
      unfolding eq using lc by simp
    moreover have "take (?m + 1) (F K) = (spec_collapse t ^^ K) cps"
      using ih(2) m1 by metis
    ultimately show ?case by (simp only: funpow.simps comp_apply simp_thms)
  qed
  then show ?thesis unfolding F_def .
qed

lemma bezier_point_spec: "cps \<noteq> [] \<Longrightarrow> bezier_point cps t = spec_curve_point cps t"
proof -
  assume ne: "cps \<noteq> []"
  then have K: "length cps - 1 < length cps" by (cases cps) simp_all
  have up: "[1..<length cps - 1 + 1] = [1..<length cps]" using ne by (cases cps) simp_all
  from de_casteljau_rounds [OF K, of t]
  have l: "length (de_casteljau cps t) = length cps"
    and tk: "take (length cps - (length cps - 1)) (de_casteljau cps t)
       = (spec_collapse t ^^ (length cps - 1)) cps"
    unfolding de_casteljau_def up by simp_all
  have one: "length cps - (length cps - 1) = 1" using ne by (cases cps) simp_all
  have "de_casteljau cps t \<noteq> []" using l ne by auto
  then have "take 1 (de_casteljau cps t) = [de_casteljau cps t ! 0]"
    by (cases "de_casteljau cps t") simp_all
  moreover have "take 1 (de_casteljau cps t) = (spec_collapse t ^^ (length cps - 1)) cps"
    using tk one by metis
  ultimately have "(spec_collapse t ^^ (length cps - 1)) cps = [de_casteljau cps t ! 0]"
    by metis
  then show ?thesis
    unfolding bezier_point_def spec_curve_point_def by (simp only: list.sel)
qed

lemma step_samples_spec: "step_samples cps = spec_evaluate (grid_ts 10000 0) cps"
proof (cases "2 \<le> length cps")
  case True
  then have "cps \<noteq> []" by auto
  then have "bezier_point cps = spec_curve_point cps" by (auto simp add: bezier_point_spec)
  then show ?thesis using True by (simp add: step_samples_def spec_evaluate_def)
next
  case False
  then show ?thesis by (simp add: step_samples_def spec_evaluate_def)
qed

lemma length_points_of: "length (points_of xs) = length xs div 2"
  by (simp add: points_of_def)

lemma nth_points_of:
  "i < length xs div 2 \<Longrightarrow> points_of xs ! i = Point (xs ! (i * 2)) (xs ! (i * 2 + 1))"
  by (simp add: points_of_def)

lemma length_casteljau_step: "length (casteljau_step t j temp) = length temp"
  by (simp add: casteljau_step_def Let_def)

lemma points_of_casteljau_step:
  assumes "j + 1 < length temp div 2"
  shows "points_of (casteljau_step t j temp) = lerp_step t j (points_of temp)"
proof (rule nth_equalityI)
  show "length (points_of (casteljau_step t j temp)) = length (lerp_step t j (points_of temp))"
    by (simp add: length_points_of length_casteljau_step lerp_step_def)
next
  fix i assume "i < length (points_of (casteljau_step t j temp))"
  then have i: "i < length temp div 2"
    by (simp add: length_points_of length_casteljau_step)
  have j: "j < length temp div 2" using assms by simp
  have b: "j * 2 + 1 < length temp" "i * 2 + 1 < length temp" using i j by simp_all
  have l: "points_of (casteljau_step t j temp) ! i =
        Point (casteljau_step t j temp ! (i * 2)) (casteljau_step t j temp ! (i * 2 + 1))"
    using i by (simp add: nth_points_of length_casteljau_step)
  show "points_of (casteljau_step t j temp) ! i = lerp_step t j (points_of temp) ! i"
  proof (cases "i = j")
    case True
    show ?thesis
      unfolding l using True assms j b
      by (simp add: casteljau_step_def Let_def lerp_step_def length_points_of nth_points_of
          padd_def pmul_def)
  next
    case False
    then have "i * 2 \<noteq> j * 2" "i * 2 \<noteq> j * 2 + 1" "i * 2 + 1 \<noteq> j * 2" "i * 2 + 1 \<noteq> j * 2 + 1"
      by presburger+
    then show ?thesis
      unfolding l using False i
      by (simp add: casteljau_step_def Let_def lerp_step_def nth_points_of)
  qed
qed

lemma points_of_fold_step:
  "m + 1 \<le> length temp div 2 \<Longrightarrow>
   length (fold (casteljau_step t) [0..<m] temp) = length temp \<and>
   points_of (fold (casteljau_step t) [0..<m] temp) = fold (lerp_step t) [0..<m] (points_of temp)"
proof (induction m)
  case 0
  show ?case by simp
next
  case (Suc m)
  then have ih: "length (fold (casteljau_step t) [0..<m] temp) = length temp"
    "points_of (fold (casteljau_step t) [0..<m] temp) = fold (lerp_step t) [0..<m] (points_of temp)"
    by simp_all
  have "m + 1 < length (fold (casteljau_step t) [0..<m] temp) div 2"
    using Suc.prems ih(1) by simp
  from points_of_casteljau_step [OF this, of t] show ?case
    by (simp add: ih length_casteljau_step)
qed

lemma points_of_rounds:
  assumes "length temp div 2 = n + 1" "\<forall>r\<in>set rs. 1 \<le> r \<and> r \<le> n"
  shows "length (fold (\<lambda>r temp. fold (casteljau_step t) [0..<n - r + 1] temp) rs temp) = length temp \<and>
   points_of (fold (\<lambda>r temp. fold (casteljau_step t) [0..<n - r + 1] temp) rs temp) =
     fold (\<lambda>k temp. fold (lerp_step t) [0..<n + 1 - k] temp) rs (points_of temp)"
proof -
  define G where "G = (\<lambda>r temp. fold (casteljau_step t) [0..<n - r + 1] temp)"
  define H where "H = (\<lambda>k temp. fold (lerp_step t) [0..<n + 1 - k] temp)"
  have one: "length (G r u) = length u \<and> points_of (G r u) = H r (points_of u)"
    if "length u div 2 = n + 1" "1 \<le> r" "r \<le> n" for r u
  proof -
    have m: "n - r + 1 + 1 \<le> length u div 2" using that by simp
    have e: "n - r + 1 = n + 1 - r" using that by simp
    from points_of_fold_step [OF m, of t] show ?thesis
      unfolding G_def H_def e by simp
  qed
  have "length (fold G rs temp) = length temp \<and>
        points_of (fold G rs temp) = fold H rs (points_of temp)"
    using assms
  proof (induction rs arbitrary: temp)
    case Nil
    show ?case by simp
  next
    case (Cons r rs)
    have r: "1 \<le> r" "r \<le> n" using Cons.prems(2) by simp_all
    from one [OF Cons.prems(1) r]
    have u: "length (G r temp) = length temp" "points_of (G r temp) = H r (points_of temp)"
      by simp_all
    have "length (G r temp) div 2 = n + 1" using u(1) Cons.prems(1) by simp
    moreover have "\<forall>r\<in>set rs. 1 \<le> r \<and> r \<le> n" using Cons.prems(2) by simp
    ultimately have "length (fold G rs (G r temp)) = length (G r temp) \<and>
        points_of (fold G rs (G r temp)) = fold H rs (points_of (G r temp))"
      by (rule Cons.IH)
    then show ?case by (simp add: u)
  qed
  then show ?thesis unfolding G_def H_def .
qed

lemma casteljau_points:
  assumes "2 \<le> length points div 2"
  shows "casteljau (length points div 2 - 1) t points ! 0 = px (spec_curve_point (points_of points) t)"
    "casteljau (length points div 2 - 1) t points ! 1 = py (spec_curve_point (points_of points) t)"
proof -
  let ?n = "length points div 2 - 1"
  let ?c = "casteljau ?n t points"
  have n: "length points div 2 = ?n + 1" using assms by simp
  have rs: "\<forall>r\<in>set [1..<?n + 1]. 1 \<le> r \<and> r \<le> ?n" by auto
  note both = points_of_rounds [OF n rs, of t]
  have len: "length ?c = length points"
    unfolding casteljau_def by (rule both [THEN conjunct1])
  have po: "points_of ?c =
        fold (\<lambda>k temp. fold (lerp_step t) [0..<?n + 1 - k] temp) [1..<?n + 1] (points_of points)"
    unfolding casteljau_def by (rule both [THEN conjunct2])
  have lp: "length (points_of points) = ?n + 1" using n by (simp only: length_points_of)
  have "points_of ?c = de_casteljau (points_of points) t"
    unfolding po de_casteljau_def lp ..
  moreover have "points_of points \<noteq> []"
    using assms length_points_of [of points] by auto
  ultimately have "points_of ?c ! 0 = spec_curve_point (points_of points) t"
    using bezier_point_spec [of "points_of points" t] by (simp add: bezier_point_def)
  moreover have "points_of ?c ! 0 = Point (?c ! (0 * 2)) (?c ! (0 * 2 + 1))"
    by (rule nth_points_of) (use assms len in simp)
  moreover have "(0::nat) * 2 = 0" "(0::nat) * 2 + 1 = 1" by simp_all
  ultimately have "Point (?c ! 0) (?c ! 1) = spec_curve_point (points_of points) t"
    by simp
  then show "?c ! 0 = px (spec_curve_point (points_of points) t)"
    "?c ! 1 = py (spec_curve_point (points_of points) t)"
    by (metis Point.sel(1), metis Point.sel(2))
qed

lemma computeBezierCurve_spec:
  "computeBezierCurve points =
     flat_of (spec_evaluate (spec_params_resolution CURVE_RESOLUTION) (points_of points))"
proof (cases "2 \<le> length points div 2")
  case True
  have "computeBezierCurve points =
      concat (map (\<lambda>i. [px (spec_curve_point (points_of points)
                            (fdiv (f32_of_int (int i)) (f32_of_int (int CURVE_RESOLUTION)))),
                        py (spec_curve_point (points_of points)
                            (fdiv (f32_of_int (int i)) (f32_of_int (int CURVE_RESOLUTION))))])
                [0..<CURVE_RESOLUTION + 1])"
    unfolding computeBezierCurve_concat [OF True] casteljau_points [OF True] ..
  also have "\<dots> = flat_of (spec_evaluate (spec_params_resolution CURVE_RESOLUTION) (points_of points))"
    using True
    by (simp add: flat_of_def spec_evaluate_def spec_params_resolution_def length_points_of o_def)
  finally show ?thesis .
next
  case False
  then show ?thesis
    by (simp add: computeBezierCurve_def flat_of_def spec_evaluate_def length_points_of)
qed

section \<open>The claims\<close>

subsection \<open>C1: the curve sample and the control points\<close>

lemma dispatch_keeps_curve:
  assumes "curve_points s = step_samples (control_points s)" "dispatch s ev = Inr s'"
  shows "curve_points s' = step_samples (control_points s')"
proof (cases ev)
  case (MouseButton button action x y)
  then show ?thesis using assms
    by (auto simp add: handle_mouse_press_def handle_mouse_release_def compute_curve_eq
        split: if_splits option.splits)
next
  case (CursorPos x y held)
  then show ?thesis using assms
    by (auto simp add: handle_mouse_press_def compute_curve_eq split: if_splits option.splits)
next
  case (Key key action)
  then show ?thesis using assms
    by (auto simp add: handle_key_def step_samples_def split: if_splits)
qed

lemma reachable_curve: "reachable s \<Longrightarrow> curve_points s = step_samples (control_points s)"
proof (induction rule: reachable.induct)
  case init
  show ?case by (simp add: BezierCurve_init_def step_samples_def)
next
  case (step s ev s')
  then show ?case by (auto intro: dispatch_keeps_curve)
qed

lemma gdispatch_keeps_curve:
  assumes "curvePoints g = computeBezierCurve (controlPoints g)" "gdispatch g ev = Inr g'"
  shows "curvePoints g' = computeBezierCurve (controlPoints g')"
proof (cases ev)
  case (Button button action xpos ypos)
  then show ?thesis using assms
    by (auto simp add: mouse_button_callback_def updateBuffers_def Let_def
        split: if_splits prod.splits)
next
  case (Cursor xpos ypos)
  then show ?thesis using assms
    by (auto simp add: cursor_position_callback_def updateBuffers_def Let_def
        split: if_splits prod.splits sum.splits)
qed

lemma greachable_curve: "greachable g \<Longrightarrow> curvePoints g = computeBezierCurve (controlPoints g)"
proof (induction rule: greachable.induct)
  case ginit
  show ?case by (simp add: main_init_def updateBuffers_def)
next
  case (gstep g ev g')
  then show ?case by (auto intro: gdispatch_keeps_curve)
qed

lemma reachable_curve_spec:
  "reachable s \<Longrightarrow> curve_points s = spec_evaluate (grid_ts 10000 0) (control_points s)"
  by (simp add: reachable_curve step_samples_spec)

lemma greachable_curve_spec:
  "greachable g \<Longrightarrow>
   curvePoints g =
     flat_of (spec_evaluate (spec_params_resolution CURVE_RESOLUTION) (points_of (controlPoints g)))"
  by (simp add: greachable_curve computeBezierCurve_spec)

lemma spec_step_count_value: "spec_step_count CURVE_STEP = 10001"
  by (simp add: spec_step_count_def CURVE_STEP_value)

lemma spec_last_param: "fmul (f32_of_int 10000) CURVE_STEP = f_one"
  by (simp add: CURVE_STEP_value fl_eval)


text \<open>
  C1. In the step-sampled editor the curve sample is not the evaluation at the configured
  step. After two clicks, at \<open>(100, 100)\<close> and \<open>(200, 100)\<close>, the sample is the
  specification's curve points at the parameters that the float loop visits, 10000 of
  them, while the evaluation at the multiples of \<^verbatim>\<open>CURVE_STEP\<close> has
  \<open>floor (1 / 0.0001) + 1 = 10001\<close> points, the last of them at \<open>t = 1\<close>; the two
  differ. What holds in every state that the events reach: the sample is up to date with
  the control points in both editors (\<open>reachable_curve\<close>, \<open>greachable_curve\<close>), every
  point of it is a curve point of the specification, and in the resolution-sampled editor
  the sample is the specification's evaluation at \<open>CURVE_RESOLUTION + 1\<close> evenly spaced
  parameters (\<open>reachable_curve_spec\<close>, \<open>greachable_curve_spec\<close>).
\<close>

theorem step_curve_not_spec_evaluation:
  "map_sum id
     (\<lambda>s. (curve_points s = spec_evaluate (grid_ts 10000 0) (control_points s),
           length (curve_points s),
           length (spec_evaluate (spec_params_step CURVE_STEP) (control_points s)),
           curve_points s = spec_evaluate (spec_params_step CURVE_STEP) (control_points s)))
     (run_events BezierCurve_init
        [MouseButton GLFW_MOUSE_BUTTON_LEFT GLFW_RELEASE (100, 0) (100, 0),
         MouseButton GLFW_MOUSE_BUTTON_LEFT GLFW_RELEASE (200, 0) (100, 0)]) =
   Inr (True, 10000, 10001, False)"
proof -
  have r: "rnd 24 (100, 0) = (25, 2)" "rnd 24 (200, 0) = (25, 3)"
    by (simp_all add: fl_eval)
  have l1: "length (step_samples [Point (25, 2) (25, 2), Point (25, 3) (25, 2)]) = 10000"
    by (simp add: step_curve_length)
  have l2: "length (spec_evaluate (spec_params_step CURVE_STEP)
      [Point (25, 2) (25, 2), Point (25, 3) (25, 2)]) = 10001"
    by (simp add: spec_evaluate_def spec_params_step_def spec_step_count_value)
  have ne: "step_samples [Point (25, 2) (25, 2), Point (25, 3) (25, 2)] \<noteq>
      spec_evaluate (spec_params_step CURVE_STEP) [Point (25, 2) (25, 2), Point (25, 3) (25, 2)]"
  proof
    assume "step_samples [Point (25, 2) (25, 2), Point (25, 3) (25, 2)] =
      spec_evaluate (spec_params_step CURVE_STEP) [Point (25, 2) (25, 2), Point (25, 3) (25, 2)]"
    then have "length (step_samples [Point (25, 2) (25, 2), Point (25, 3) (25, 2)]) =
      length (spec_evaluate (spec_params_step CURVE_STEP)
        [Point (25, 2) (25, 2), Point (25, 3) (25, 2)])"
      by (rule arg_cong)
    then show False unfolding l1 l2 by simp
  qed
  show ?thesis
    by (simp add: r class_eval glfw_eval ne l1 l2 step_samples_spec [symmetric])
qed

subsection \<open>C2: a deletion during a drag\<close>

text \<open>
  C2. A deletion during a drag does not clear the drag state. In the step-sampled editor
  a point is added at \<open>(100, 100)\<close>, a left press on it starts a drag, a right press on it
  deletes it, and the left release then writes through the stale iterator, beyond the end
  of the empty list.
\<close>

theorem stale_drag_out_of_range:
  "run_events BezierCurve_init
     [MouseButton GLFW_MOUSE_BUTTON_LEFT GLFW_RELEASE (100, 0) (100, 0),
      MouseButton GLFW_MOUSE_BUTTON_LEFT GLFW_PRESS (100, 0) (100, 0),
      MouseButton GLFW_MOUSE_BUTTON_RIGHT GLFW_PRESS (100, 0) (100, 0),
      MouseButton GLFW_MOUSE_BUTTON_LEFT GLFW_RELEASE (150, 0) (150, 0)] = Inl OutOfRange"
  by (simp add: class_eval step_samples_def glfw_eval fl_eval)

text \<open>
  The resolution-sampled editor keeps \<^verbatim>\<open>draggedIndex\<close> in the same way: after a left
  press and a right press on the last seed point, the next cursor move writes beyond the
  end of the list.
\<close>

lemma stale_index_out_of_range:
  "cursor_position_callback
     (mouse_button_callback
        (mouse_button_callback main_init GLFW_MOUSE_BUTTON_LEFT GLFW_PRESS (720, 0) (60, 0))
        GLFW_MOUSE_BUTTON_RIGHT GLFW_PRESS (720, 0) (60, 0))
     (400, 0) (300, 0) = Inl OutOfRange"
proof -
  have g1: "mouse_button_callback main_init GLFW_MOUSE_BUTTON_LEFT GLFW_PRESS (720, 0) (60, 0) =
        main_init\<lparr>dragging := True, draggedIndex := 3\<rparr>"
    by (simp add: mouse_button_callback_def cursor_720_60 find_720_60 glfw_eval)
  have g2: "mouse_button_callback (main_init\<lparr>dragging := True, draggedIndex := 3\<rparr>)
        GLFW_MOUSE_BUTTON_RIGHT GLFW_PRESS (720, 0) (60, 0) =
        updateBuffers (main_init\<lparr>dragging := True, draggedIndex := 3,
          controlPoints := take 6 (controlPoints main_init)\<rparr>)"
    by (simp add: mouse_button_callback_def cursor_720_60 find_720_60_three glfw_eval seed_points)
  show ?thesis
    unfolding g1 g2
    by (simp add: cursor_position_callback_def cursor_400_300 write_at_def updateBuffers_def
        seed_points)
qed

subsection \<open>C3: fewer than two control points\<close>

text \<open>
  C3. With no or one control point the evaluation returns the empty curve, and returns it
  as a result, not as an error.
\<close>

theorem few_points_empty_curve:
  "(length (control_points s) < 2 \<longrightarrow> compute_curve s = Inr (s\<lparr>curve_points := []\<rparr>)) \<and>
   (length points div 2 < 2 \<longrightarrow> computeBezierCurve points = [])"
  by (simp add: compute_curve_def computeBezierCurve_def)

theorem few_points_empty_curve_witness:
  "length (control_points (BezierCurve_init\<lparr>control_points := [Point (25, 2) (25, 2)]\<rparr>)) < 2 \<and>
   compute_curve (BezierCurve_init\<lparr>control_points := [Point (25, 2) (25, 2)]\<rparr>) =
     Inr (BezierCurve_init\<lparr>control_points := [Point (25, 2) (25, 2)], curve_points := []\<rparr>) \<and>
   length [(1, 0), (3, - 1) :: fl] div 2 < 2 \<and>
   computeBezierCurve [(1, 0), (3, - 1)] = []"
  using few_points_empty_curve [of "BezierCurve_init\<lparr>control_points := [Point (25, 2) (25, 2)]\<rparr>"
      "[(1, 0), (3, - 1)]"]
  by simp

subsection \<open>C4: the number of samples\<close>

text \<open>
  C4. The step-sampled loop returns 10000 points for the two control points
  \<open>(100, 100)\<close> and \<open>(200, 100)\<close>, one fewer than \<open>floor (1 / 0.0001) + 1 = 10001\<close>: the
  rounded sums of \<^verbatim>\<open>CURVE_STEP\<close> pass \<open>1\<close> after 10000 additions
  (\<open>grid_run_10000\<close>). The resolution-sampled editor returns \<open>CURVE_RESOLUTION + 1\<close>
  points (\<open>resolution_curve_length\<close>).
\<close>

theorem step_curve_count:
  "map_sum id (\<lambda>s. length (curve_points s))
     (run_events BezierCurve_init
        [MouseButton GLFW_MOUSE_BUTTON_LEFT GLFW_RELEASE (100, 0) (100, 0),
         MouseButton GLFW_MOUSE_BUTTON_LEFT GLFW_RELEASE (200, 0) (100, 0)]) = Inr 10000"
  by (simp add: class_eval step_samples_def length_grid_ts glfw_eval fl_eval)

subsection \<open>C5: the first and the last sample\<close>

text \<open>
  C5. For the control points \<open>(100, 100)\<close> and \<open>(200, 100)\<close> the last point of the
  step-sampled curve is \<open>(13106895 * 2 ^ - 16, 100)\<close>, about \<open>(199.995, 100)\<close>, and not the
  last control point \<open>(200, 100) = (25 * 2 ^ 3, 25 * 2 ^ 2)\<close>: the last parameter that the
  loop reaches is \<open>16776437 * 2 ^ - 24\<close>, below \<open>1\<close>. The first sample is the first control
  point in both editors, and the last sample of the resolution-sampled editor is the last
  control point (\<open>step_curve_first\<close>, \<open>resolution_curve_endpoints\<close>).
\<close>

theorem step_curve_last:
  "map_sum id (\<lambda>s. last (curve_points s))
     (run_events BezierCurve_init
        [MouseButton GLFW_MOUSE_BUTTON_LEFT GLFW_RELEASE (100, 0) (100, 0),
         MouseButton GLFW_MOUSE_BUTTON_LEFT GLFW_RELEASE (200, 0) (100, 0)]) =
   Inr (Point (13106895, - 16) (25, 2)) \<and>
   Point (rnd 24 (200, 0)) (rnd 24 (100, 0)) = Point (25, 3) (25, 2)"
proof -
  have p: "bezier_point [Point (25, 2) (25, 2), Point (25, 3) (25, 2)] (16776437, - 24) =
           Point (13106895, - 16) (25, 2)"
    by (simp add: casteljau_eval fl_eval)
  have r: "rnd 24 (100, 0) = (25, 2)" "rnd 24 (200, 0) = (25, 3)"
    by (simp_all add: fl_eval)
  show ?thesis
    by (simp add: r class_eval step_samples_def last_map grid_ts_10000_nonempty
        grid_ts_10000_last p glfw_eval)
qed

subsection \<open>C6: the hit test\<close>

lemma find_from_filter:
  "find_from g x y threshold i =
     (case filter (\<lambda>k. fl_less (getPointDistance g k x y) (fmul threshold threshold))
             [i..<length (controlPoints g) div 2] of
        [] \<Rightarrow> - 1 | k # _ \<Rightarrow> int k)"
proof (induction g x y threshold i rule: find_from.induct)
  case (1 g x y threshold i)
  show ?case
  proof (cases "i < length (controlPoints g) div 2")
    case True
    then have u: "[i..<length (controlPoints g) div 2] = i # [Suc i..<length (controlPoints g) div 2]"
      by (rule upt_conv_Cons)
    show ?thesis
    proof (cases "fl_less (getPointDistance g i x y) (fmul threshold threshold)")
      case hit: True
      then show ?thesis using True by (subst find_from.simps) (simp add: u)
    next
      case miss: False
      with "1.IH" [OF True miss] show ?thesis using True
        by (subst find_from.simps) (simp add: u)
    qed
  next
    case False
    then show ?thesis by (subst find_from.simps) simp
  qed
qed

lemma case_map_Suc:
  "(case map Suc xs of [] \<Rightarrow> a | i # _ \<Rightarrow> f i) = (case xs of [] \<Rightarrow> a | i # _ \<Rightarrow> f (Suc i))"
  by (cases xs) simp_all

lemma find_close_filter:
  "find_close ps q k =
     (case filter (\<lambda>i. is_close (ps ! i) q) [0..<length ps] of
        [] \<Rightarrow> None | i # _ \<Rightarrow> Some (k + i))"
proof (induction ps arbitrary: k)
  case Nil
  show ?case by simp
next
  case (Cons p ps)
  have u: "[0..<length (p # ps)] = 0 # map Suc [0..<length ps]"
    by (simp add: upt_conv_Cons map_Suc_upt del: upt_Suc)
  show ?case
    unfolding u by (simp add: filter_map o_def case_map_Suc Cons.IH split: list.split)
qed

lemma getPointDistance_spec:
  "fl_less (getPointDistance g i x y) (fmul threshold threshold) =
   spec_hit (Point (controlPoints g ! (i * 2)) (controlPoints g ! (i * 2 + 1))) (Point x y) threshold"
  by (simp add: getPointDistance_def spec_hit_def Let_def)

text \<open>
  C6, as stated, fails in the step-sampled editor: the point \<open>(100, 100)\<close> is found from
  \<open>(110, 100)\<close>, at a distance of exactly the threshold 10, where the squared distance 100
  is not below the threshold squared.
\<close>

theorem hit_test_boundary_counterexample:
  "find_close [Point (rnd 24 (100, 0)) (rnd 24 (100, 0))]
     (Point (rnd 24 (110, 0)) (rnd 24 (100, 0))) 0 = Some 0 \<and>
   \<not> spec_hit (Point (rnd 24 (100, 0)) (rnd 24 (100, 0)))
         (Point (rnd 24 (110, 0)) (rnd 24 (100, 0))) POINT_THRESHOLD"
  unfolding spec_hit_def Let_def
  by (simp add: is_close_def pow2d_def POINT_THRESHOLD_def fl_eval)

text \<open>
  C6, amended. Both searches return the first control point in list order that passes the
  editor's own test, and \<open>- 1\<close> or nothing when no point passes. In the
  resolution-sampled editor the test is the specification's (squared distance below the
  threshold squared); in the step-sampled editor it is \<^verbatim>\<open>is_close\<close>, the square root of
  the squared distance at most \<^verbatim>\<open>POINT_THRESHOLD\<close>.
\<close>

theorem hit_test_first:
  "findPointUnderCursor g x y threshold =
     (case filter (\<lambda>i. spec_hit (Point (controlPoints g ! (i * 2)) (controlPoints g ! (i * 2 + 1)))
                       (Point x y) threshold)
             [0..<length (controlPoints g) div 2] of
        [] \<Rightarrow> - 1 | i # _ \<Rightarrow> int i) \<and>
   find_close cps q 0 =
     (case filter (\<lambda>i. is_close (cps ! i) q) [0..<length cps] of
        [] \<Rightarrow> None | i # _ \<Rightarrow> Some i)"
  by (simp add: findPointUnderCursor_def find_from_filter find_close_filter getPointDistance_spec
      split: list.split)

subsection \<open>C7: removing a point\<close>

text \<open>
  C7, as stated, fails in the step-sampled editor: with the two points \<open>(100, 100)\<close> and
  \<open>(200, 100)\<close>, a right press on the first removes it and leaves one point.
\<close>

theorem delete_below_two_counterexample:
  "map_sum id control_points
     (run_events BezierCurve_init
        [MouseButton GLFW_MOUSE_BUTTON_LEFT GLFW_RELEASE (100, 0) (100, 0),
         MouseButton GLFW_MOUSE_BUTTON_LEFT GLFW_RELEASE (200, 0) (100, 0),
         MouseButton GLFW_MOUSE_BUTTON_RIGHT GLFW_PRESS (100, 0) (100, 0)]) =
   Inr [Point (25, 3) (25, 2)]"
proof -
  have r: "rnd 24 (100, 0) = (25, 2)" "rnd 24 (200, 0) = (25, 3)"
    by (simp_all add: fl_eval)
  show ?thesis by (simp add: r class_eval glfw_eval fl_eval)
qed

text \<open>
  C7, amended. A right press that hits point \<open>i\<close> removes exactly that point and keeps the
  others in order. The resolution-sampled editor does so only when more than two points
  (four floats) exist and otherwise leaves the list as it is; the step-sampled editor
  always removes the point.
\<close>

theorem delete_removes_point:
  "(findPointUnderCursor g (fst (screenToGLCoords xpos ypos)) (snd (screenToGLCoords xpos ypos))
      default_threshold = int i \<longrightarrow>
    controlPoints (mouse_button_callback g GLFW_MOUSE_BUTTON_RIGHT GLFW_PRESS xpos ypos) =
      (if 4 < length (controlPoints g)
       then take (i * 2) (controlPoints g) @ drop (i * 2 + 2) (controlPoints g)
       else controlPoints g)) \<and>
   (find_close (control_points s) (Point x y) 0 = Some k \<longrightarrow>
    map_sum id control_points (handle_mouse_press s x y GLFW_MOUSE_BUTTON_RIGHT) =
      Inr (take k (control_points s) @ drop (Suc k) (control_points s)))"
proof (intro conjI impI)
  assume f: "findPointUnderCursor g (fst (screenToGLCoords xpos ypos))
      (snd (screenToGLCoords xpos ypos)) default_threshold = int i"
  then have ne: "controlPoints g \<noteq> []" using find_from_empty [of g] by fastforce
  show "controlPoints (mouse_button_callback g GLFW_MOUSE_BUTTON_RIGHT GLFW_PRESS xpos ypos) =
      (if 4 < length (controlPoints g)
       then take (i * 2) (controlPoints g) @ drop (i * 2 + 2) (controlPoints g)
       else controlPoints g)"
    using f ne
    by (simp add: mouse_button_callback_def case_prod_beta Let_def glfw_eval updateBuffers_def)
next
  assume "find_close (control_points s) (Point x y) 0 = Some k"
  then show "map_sum id control_points (handle_mouse_press s x y GLFW_MOUSE_BUTTON_RIGHT) =
      Inr (take k (control_points s) @ drop (Suc k) (control_points s))"
    by (simp add: handle_mouse_press_def compute_curve_eq erase_def glfw_eval)
qed

theorem delete_removes_point_witness:
  "findPointUnderCursor main_init (fst (screenToGLCoords (720, 0) (60, 0)))
     (snd (screenToGLCoords (720, 0) (60, 0))) default_threshold = 3 \<and>
   controlPoints (mouse_button_callback main_init GLFW_MOUSE_BUTTON_RIGHT GLFW_PRESS (720, 0) (60, 0)) =
     take 6 (controlPoints main_init) \<and>
   find_close [Point (25, 2) (25, 2), Point (25, 3) (25, 2)] (Point (25, 2) (25, 2)) 0 = Some 0 \<and>
   map_sum id control_points
     (handle_mouse_press (BezierCurve_init\<lparr>control_points := [Point (25, 2) (25, 2), Point (25, 3) (25, 2)]\<rparr>)
        (25, 2) (25, 2) GLFW_MOUSE_BUTTON_RIGHT) = Inr [Point (25, 3) (25, 2)]"
proof -
  have h1: "findPointUnderCursor main_init (fst (screenToGLCoords (720, 0) (60, 0)))
     (snd (screenToGLCoords (720, 0) (60, 0))) default_threshold = int 3"
    by (simp add: cursor_720_60 find_720_60)
  have h2: "find_close (control_points (BezierCurve_init\<lparr>control_points := [Point (25, 2) (25, 2), Point (25, 3) (25, 2)]\<rparr>))
       (Point (25, 2) (25, 2)) 0 = Some 0"
    by (simp add: is_close_def pow2d_def POINT_THRESHOLD_def fl_eval)
  from delete_removes_point [of main_init "(720, 0)" "(60, 0)" 3
      "BezierCurve_init\<lparr>control_points := [Point (25, 2) (25, 2), Point (25, 3) (25, 2)]\<rparr>"
      "(25, 2)" "(25, 2)" 0] h1 h2
  show ?thesis by (simp add: seed_points)
qed

subsection \<open>C8: the list entry during a drag\<close>












subsection \<open>C9: cursor moves during a drag\<close>

text \<open>
  C9. In the step-sampled editor a cursor move during a drag updates nothing. After a
  press on the point at \<open>(100, 100)\<close> and a move to \<open>(200, 200)\<close> the state is the one the
  press left, and the point is still drawn at \<open>(100, 100) = (25 * 2 ^ 2, 25 * 2 ^ 2)\<close>,
  not at the cursor \<open>(200, 200) = (25 * 2 ^ 3, 25 * 2 ^ 3)\<close>.
\<close>

theorem move_ignored_while_moving:
  "run_events BezierCurve_init
     [MouseButton GLFW_MOUSE_BUTTON_LEFT GLFW_RELEASE (100, 0) (100, 0),
      MouseButton GLFW_MOUSE_BUTTON_LEFT GLFW_PRESS (100, 0) (100, 0),
      CursorPos (200, 0) (200, 0) True] =
   Inr (BezierCurve_init\<lparr>control_points := [Point (25, 2) (25, 2)],
          moving_points := [Point (25, 2) (25, 2)], move_iter := 0, is_moving := True\<rparr>) \<and>
   drawn_point (BezierCurve_init\<lparr>control_points := [Point (25, 2) (25, 2)],
          moving_points := [Point (25, 2) (25, 2)], move_iter := 0, is_moving := True\<rparr>) 0
     = Point (25, 2) (25, 2) \<and>
   Point (rnd 24 (200, 0)) (rnd 24 (200, 0)) = Point (25, 3) (25, 3)"
  by (simp add: class_eval step_samples_def glfw_eval fl_eval)

subsection \<open>C10: a release of any button\<close>

text \<open>
  C10. In the resolution-sampled editor a release of any button ends the drag: the
  handler only clears \<^verbatim>\<open>dragging\<close> and sets \<^verbatim>\<open>draggedIndex\<close> to \<open>- 1\<close>; the control
  points and the curve stay as they are.
\<close>

theorem release_ends_drag:
  "mouse_button_callback g button GLFW_RELEASE xpos ypos =
     g\<lparr>dragging := False, draggedIndex := - 1\<rparr>"
  by (simp add: mouse_button_callback_def glfw_eval)

end
